theory Spec2Isabelle
  imports Main "HOL-Library.Word" "HOL-Library.Signed_Division"
begin

section \<open>The hospital graph loader (hospital\_bulk\_csv\_write.py)\<close>

text \<open>
  The loader is a Python function that sends a fixed sequence of Cypher statements to a
  graph store.  The statements are the program: each one is embedded here as a function on
  an explicit store, following the documented meaning of the Cypher clauses it uses
  (\<^verbatim>\<open>CREATE CONSTRAINT ... IS UNIQUE\<close>, \<^verbatim>\<open>LOAD CSV WITH HEADERS\<close>, \<^verbatim>\<open>MATCH\<close>,
  \<^verbatim>\<open>MERGE\<close>, \<^verbatim>\<open>SET\<close>, \<^verbatim>\<open>WHERE\<close>).

  Environment, taken as parameters: the contents of the six CSV files (a list of rows per
  file, each row a map from column name to raw text, an empty field being null), the two
  conversion functions \<^verbatim>\<open>toInteger\<close> and \<^verbatim>\<open>toFloat\<close> of the store (null when the text does not
  parse), and whether the store can be reached during an attempt.

  Read as follows: the files can be read; a statement that fails changes nothing in the
  store; no other client writes to the store meanwhile.  The store's integers are signed
  64-bit integers, and an addition that leaves their range is an error of the statement.

  How a failure of a statement reaches the Python function depends on the call that sends
  it.  The constraints go through \<^verbatim>\<open>session.execute_write\<close>, which commits the transaction
  and raises its failure.  Every other statement goes through
  \<^verbatim>\<open>_ = session.run(query, {})\<close>: the result is dropped without being read, so a failure
  that the store reports while the statement executes (a null property in a \<^verbatim>\<open>MERGE\<close>, a
  violated constraint, an overflow) is never seen by the function, which goes on with the
  next statement.
\<close>

subsection \<open>Data\<close>

datatype label = Hospital | Payer | Physician | Patient | Visit | Review

datatype rtype = HAS | AT | TREATS | COVERED_BY | WRITES | EMPLOYS

text \<open>Property values the node statements can write: 64-bit integers and text.\<close>

datatype nval = IntV "64 word" | StrV string

text \<open>Property values the relationship statements can write: text and floats.\<close>

datatype 'f rval = TextV string | FloatV 'f

type_synonym row = "string \<rightharpoonup> string"

type_synonym sources = "label \<Rightarrow> row list"

record gnode =
  nlabel :: label
  nprops :: "string \<rightharpoonup> nval"

record 'f grel =
  rkind :: rtype
  rsrc :: nat
  rdst :: nat
  rprops :: "string \<rightharpoonup> 'f rval"

text \<open>
  The store: the labels that carry a uniqueness constraint on \<^verbatim>\<open>id\<close>, the nodes and the
  relationships.  Nothing in the program deletes, so a node is identified by its position.
\<close>

record 'f store =
  constraints :: "label set"
  nodes :: "gnode list"
  rels :: "'f grel list"

definition empty_store :: "'f store" where
  "empty_store = \<lparr>constraints = {}, nodes = [], rels = []\<rparr>"

record 'f cypher =
  toInteger :: "string \<Rightarrow> 64 word option"
  toFloat :: "string \<Rightarrow> 'f option"

datatype error =
    ServiceUnavailable
  | NullMergeProperty label string
  | ConstraintViolation label
  | ConstraintCreationFailed label
  | TypeMismatch
  | ArithmeticOverflow

subsection \<open>Expressions over a CSV row\<close>

text \<open>\<^verbatim>\<open>row.c\<close> and \<^verbatim>\<open>toInteger(row.c)\<close>; \<^verbatim>\<open>row.c\<close> and \<^verbatim>\<open>toFloat(row.c)\<close>.\<close>

datatype nexpr = Col string | ToInteger string

datatype rexpr = RCol string | ToFloat string

definition eval_nexpr :: "'f cypher \<Rightarrow> row \<Rightarrow> nexpr \<Rightarrow> nval option" where
  "eval_nexpr fns r e =
     (case e of
        Col c \<Rightarrow> map_option StrV (r c)
      | ToInteger c \<Rightarrow> (case r c of None \<Rightarrow> None | Some s \<Rightarrow> map_option IntV (toInteger fns s)))"

definition eval_rexpr :: "'f cypher \<Rightarrow> row \<Rightarrow> rexpr \<Rightarrow> 'f rval option" where
  "eval_rexpr fns r e =
     (case e of
        RCol c \<Rightarrow> map_option TextV (r c)
      | ToFloat c \<Rightarrow> (case r c of None \<Rightarrow> None | Some s \<Rightarrow> map_option FloatV (toFloat fns s)))"

subsection \<open>The statements of the program\<close>

definition NODES :: "label list" where
  "NODES = [Hospital, Payer, Physician, Patient, Visit, Review]"

text \<open>\<^verbatim>\<open>_set_uniqueness_constraints\<close>: the property of \<^verbatim>\<open>REQUIRE n.id IS UNIQUE\<close>.\<close>

definition constraint_property :: "label \<Rightarrow> string" where
  "constraint_property node = ''id''"

text \<open>
  A node statement \<^verbatim>\<open>LOAD CSV ... MERGE (n:L {k1: e1, ...}) SET n.k = e, ...\<close>: the label,
  the property map of the \<^verbatim>\<open>MERGE\<close> pattern and the assignments of the \<^verbatim>\<open>SET\<close> clause.
  Each statement reads the file of its own label.
\<close>

record node_query =
  nq_label :: label
  nq_merge :: "(string \<times> nexpr) list"
  nq_set :: "(string \<times> nexpr) list"

definition hospital_nodes :: node_query where
  "hospital_nodes = \<lparr>nq_label = Hospital,
     nq_merge = [(''id'', ToInteger ''hospital_id''), (''name'', Col ''hospital_name''),
                 (''state_name'', Col ''hospital_state'')],
     nq_set = []\<rparr>"

definition payer_nodes :: node_query where
  "payer_nodes = \<lparr>nq_label = Payer,
     nq_merge = [(''id'', ToInteger ''payer_id''), (''name'', Col ''payer_name'')],
     nq_set = []\<rparr>"

definition physician_nodes :: node_query where
  "physician_nodes = \<lparr>nq_label = Physician,
     nq_merge = [(''id'', ToInteger ''physician_id''), (''name'', Col ''physician_name''),
                 (''dob'', Col ''physician_dob''), (''grad_year'', Col ''physician_grad_year''),
                 (''school'', Col ''medical_school'')],
     nq_set = []\<rparr>"

definition patient_nodes :: node_query where
  "patient_nodes = \<lparr>nq_label = Patient,
     nq_merge = [(''id'', ToInteger ''patient_id''), (''name'', Col ''patient_name''),
                 (''sex'', Col ''patient_sex''), (''dob'', Col ''patient_dob''),
                 (''blood_type'', Col ''patient_blood_type'')],
     nq_set = []\<rparr>"

definition visit_nodes :: node_query where
  "visit_nodes = \<lparr>nq_label = Visit,
     nq_merge = [(''id'', ToInteger ''visit_id'')],
     nq_set = [(''room_number'', ToInteger ''room_number''),
               (''admission_type'', Col ''admission_type''),
               (''admission_date'', Col ''date_of_admission''),
               (''test_results'', Col ''test_results''),
               (''chief_complaint'', Col ''chief_complaint''),
               (''treatment_description'', Col ''treatment_description''),
               (''primary_diagnosis'', Col ''primary_diagnosis''),
               (''discharge_date'', Col ''discharge_date''),
               (''status'', Col ''visit_status'')]\<rparr>"

definition review_nodes :: node_query where
  "review_nodes = \<lparr>nq_label = Review,
     nq_merge = [(''id'', ToInteger ''review_id''), (''physician_name'', Col ''physician_name''),
                 (''hospital_name'', Col ''hospital_name''),
                 (''patient_name'', Col ''patient_name''), (''text'', Col ''review'')],
     nq_set = []\<rparr>"

definition node_queries :: "node_query list" where
  "node_queries =
     [hospital_nodes, payer_nodes, physician_nodes, patient_nodes, visit_nodes, review_nodes]"

text \<open>
  A relationship statement \<^verbatim>\<open>LOAD CSV ... MATCH (a:A {k: e}) MATCH (b:B {k': e'})
  MERGE (a)-[r:T]->(b) SET r.k = e, ...\<close>: the file it reads, the relationship type, the
  two \<^verbatim>\<open>MATCH\<close> patterns in the direction of the arrow, and the \<^verbatim>\<open>SET\<close> assignments.
\<close>

record rel_query =
  rq_file :: label
  rq_kind :: rtype
  rq_from :: "label \<times> string \<times> nexpr"
  rq_to :: "label \<times> string \<times> nexpr"
  rq_set :: "(string \<times> rexpr) list"

definition has_rels :: rel_query where
  "has_rels = \<lparr>rq_file = Visit, rq_kind = HAS,
     rq_from = (Patient, ''id'', ToInteger ''patient_id''),
     rq_to = (Visit, ''id'', ToInteger ''visit_id''), rq_set = []\<rparr>"

definition at_rels :: rel_query where
  "at_rels = \<lparr>rq_file = Visit, rq_kind = AT,
     rq_from = (Visit, ''id'', ToInteger ''visit_id''),
     rq_to = (Hospital, ''id'', ToInteger ''hospital_id''), rq_set = []\<rparr>"

definition treats_rels :: rel_query where
  "treats_rels = \<lparr>rq_file = Visit, rq_kind = TREATS,
     rq_from = (Physician, ''id'', ToInteger ''physician_id''),
     rq_to = (Visit, ''id'', ToInteger ''visit_id''), rq_set = []\<rparr>"

definition covered_by_rels :: rel_query where
  "covered_by_rels = \<lparr>rq_file = Visit, rq_kind = COVERED_BY,
     rq_from = (Visit, ''id'', ToInteger ''visit_id''),
     rq_to = (Payer, ''id'', ToInteger ''payer_id''),
     rq_set = [(''service_date'', RCol ''discharge_date''),
               (''billing_amount'', ToFloat ''billing_amount'')]\<rparr>"

definition writes_rels :: rel_query where
  "writes_rels = \<lparr>rq_file = Review, rq_kind = WRITES,
     rq_from = (Visit, ''id'', ToInteger ''visit_id''),
     rq_to = (Review, ''id'', ToInteger ''review_id''), rq_set = []\<rparr>"

definition rel_queries :: "rel_query list" where
  "rel_queries = [has_rels, at_rels, treats_rels, covered_by_rels, writes_rels]"

subsection \<open>Meaning of the clauses\<close>

text \<open>\<^verbatim>\<open>(n:L {k1: v1, ...})\<close> matches a node with label \<open>L\<close> that has every listed value.\<close>

definition node_matches :: "gnode \<Rightarrow> label \<Rightarrow> (string \<times> nval) list \<Rightarrow> bool" where
  "node_matches n L pat \<longleftrightarrow> nlabel n = L \<and> list_all (\<lambda>(k, v). nprops n k = Some v) pat"

definition match_nodes :: "'f store \<Rightarrow> label \<Rightarrow> (string \<times> nval) list \<Rightarrow> nat list" where
  "match_nodes st L pat =
     filter (\<lambda>i. node_matches (nodes st ! i) L pat) [0..<length (nodes st)]"

text \<open>
  Creating a node with label \<open>L\<close> is refused when \<open>L\<close> carries the uniqueness constraint
  and a node with that label already has the new node's \<^verbatim>\<open>id\<close>.
\<close>

definition id_taken :: "'f store \<Rightarrow> label \<Rightarrow> nval \<Rightarrow> bool" where
  "id_taken st L v \<longleftrightarrow> list_ex (\<lambda>n. nlabel n = L \<and> nprops n ''id'' = Some v) (nodes st)"

definition create_node :: "label \<Rightarrow> (string \<times> nval) list \<Rightarrow> 'f store \<Rightarrow> error + 'f store" where
  "create_node L pat st =
     (if L \<in> constraints st \<and>
         (case map_of pat (constraint_property L) of None \<Rightarrow> False | Some v \<Rightarrow> id_taken st L v)
      then Inl (ConstraintViolation L)
      else Inr (st\<lparr>nodes := nodes st @ [\<lparr>nlabel = L, nprops = map_of pat\<rparr>]\<rparr>))"

text \<open>\<^verbatim>\<open>MERGE\<close> on a node pattern binds every match; with no match it creates the node.\<close>

definition merge_node ::
  "label \<Rightarrow> (string \<times> nval) list \<Rightarrow> 'f store \<Rightarrow> error + ('f store \<times> nat list)" where
  "merge_node L pat st =
     (case match_nodes st L pat of
        [] \<Rightarrow> (case create_node L pat st of
                 Inl e \<Rightarrow> Inl e
               | Inr st' \<Rightarrow> Inr (st', [length (nodes st)]))
      | m # ms \<Rightarrow> Inr (st, m # ms))"

text \<open>\<^verbatim>\<open>SET n.k = v\<close>; assigning null removes the property.\<close>

definition set_node_prop :: "string \<Rightarrow> nval option \<Rightarrow> nat \<Rightarrow> 'f store \<Rightarrow> 'f store" where
  "set_node_prop k v i st =
     st\<lparr>nodes := (nodes st)[i := (nodes st ! i)\<lparr>nprops := (nprops (nodes st ! i))(k := v)\<rparr>]\<rparr>"

text \<open>
  The property map of a \<^verbatim>\<open>MERGE\<close> pattern must not hold a null: the first null property
  is reported.
\<close>

fun resolve :: "(string \<times> 'v option) list \<Rightarrow> string + (string \<times> 'v) list" where
  "resolve [] = Inr []"
| "resolve ((k, None) # kvs) = Inl k"
| "resolve ((k, Some v) # kvs) =
     (case resolve kvs of Inl k' \<Rightarrow> Inl k' | Inr pat \<Rightarrow> Inr ((k, v) # pat))"

text \<open>
  A \<^verbatim>\<open>SET\<close> clause makes its assignments in order, on one bound node or relationship.
\<close>

definition set_node_props :: "(string \<times> nval option) list \<Rightarrow> nat \<Rightarrow> 'f store \<Rightarrow> 'f store" where
  "set_node_props kvs i st = fold (\<lambda>(k, v). set_node_prop k v i) kvs st"

definition eval_props :: "(nexpr \<Rightarrow> 'v option) \<Rightarrow> (string \<times> nexpr) list \<Rightarrow> (string \<times> 'v option) list" where
  "eval_props ev kes = map (\<lambda>(k, e). (k, ev e)) kes"

definition node_row :: "'f cypher \<Rightarrow> node_query \<Rightarrow> row \<Rightarrow> 'f store \<Rightarrow> error + 'f store" where
  "node_row fns q r st =
     (case resolve (eval_props (eval_nexpr fns r) (nq_merge q)) of
        Inl k \<Rightarrow> Inl (NullMergeProperty (nq_label q) k)
      | Inr pat \<Rightarrow>
          (case merge_node (nq_label q) pat st of
             Inl e \<Rightarrow> Inl e
           | Inr (st', ms) \<Rightarrow>
               Inr (fold (set_node_props (eval_props (eval_nexpr fns r) (nq_set q))) ms st')))"

text \<open>
  \<^verbatim>\<open>LOAD CSV\<close> runs the rest of the statement once per row, in one transaction: the first
  failing row fails the statement, and the caller keeps the store as it was before.
\<close>

fun for_rows :: "(row \<Rightarrow> 's \<Rightarrow> error + 's) \<Rightarrow> row list \<Rightarrow> 's \<Rightarrow> error + 's" where
  "for_rows f [] st = Inr st"
| "for_rows f (r # rs) st = (case f r st of Inl e \<Rightarrow> Inl e | Inr st' \<Rightarrow> for_rows f rs st')"

definition load_nodes :: "'f cypher \<Rightarrow> sources \<Rightarrow> node_query \<Rightarrow> 'f store \<Rightarrow> error + 'f store" where
  "load_nodes fns src q st = for_rows (node_row fns q) (src (nq_label q)) st"

text \<open>A \<^verbatim>\<open>MATCH\<close> on \<^verbatim>\<open>{k: e}\<close> with \<open>e\<close> null matches nothing.\<close>

definition match_endpoint ::
  "'f cypher \<Rightarrow> row \<Rightarrow> 'f store \<Rightarrow> label \<times> string \<times> nexpr \<Rightarrow> nat list" where
  "match_endpoint fns r st ep =
     (case ep of (L, k, e) \<Rightarrow>
        (case eval_nexpr fns r e of None \<Rightarrow> [] | Some v \<Rightarrow> match_nodes st L [(k, v)]))"

definition rel_matches :: "'f grel \<Rightarrow> rtype \<Rightarrow> nat \<Rightarrow> nat \<Rightarrow> bool" where
  "rel_matches e t a b \<longleftrightarrow> rkind e = t \<and> rsrc e = a \<and> rdst e = b"

definition match_rels :: "'f store \<Rightarrow> rtype \<Rightarrow> nat \<Rightarrow> nat \<Rightarrow> nat list" where
  "match_rels st t a b = filter (\<lambda>j. rel_matches (rels st ! j) t a b) [0..<length (rels st)]"

text \<open>
  \<^verbatim>\<open>MERGE (a)-[r:T]->(b)\<close> on bound endpoints binds every relationship of type \<open>T\<close>
  from \<open>a\<close> to \<open>b\<close>; with none it creates one, without properties.
\<close>

definition merge_rel :: "rtype \<Rightarrow> nat \<Rightarrow> nat \<Rightarrow> 'f store \<Rightarrow> 'f store \<times> nat list" where
  "merge_rel t a b st =
     (case match_rels st t a b of
        [] \<Rightarrow> (st\<lparr>rels := rels st @ [\<lparr>rkind = t, rsrc = a, rdst = b, rprops = Map.empty\<rparr>]\<rparr>,
               [length (rels st)])
      | m # ms \<Rightarrow> (st, m # ms))"

definition set_rel_prop :: "string \<Rightarrow> 'f rval option \<Rightarrow> nat \<Rightarrow> 'f store \<Rightarrow> 'f store" where
  "set_rel_prop k v j st =
     st\<lparr>rels := (rels st)[j := (rels st ! j)\<lparr>rprops := (rprops (rels st ! j))(k := v)\<rparr>]\<rparr>"

definition set_rel_props :: "(string \<times> 'f rval option) list \<Rightarrow> nat \<Rightarrow> 'f store \<Rightarrow> 'f store" where
  "set_rel_props kvs j st = fold (\<lambda>(k, v). set_rel_prop k v j) kvs st"

definition merge_set_rel ::
  "'f cypher \<Rightarrow> rel_query \<Rightarrow> row \<Rightarrow> nat \<times> nat \<Rightarrow> 'f store \<Rightarrow> 'f store" where
  "merge_set_rel fns q r ab st =
     (case merge_rel (rq_kind q) (fst ab) (snd ab) st of
        (st', ms) \<Rightarrow>
          fold (set_rel_props (map (\<lambda>(k, e). (k, eval_rexpr fns r e)) (rq_set q))) ms st')"

definition rel_row :: "'f cypher \<Rightarrow> rel_query \<Rightarrow> row \<Rightarrow> 'f store \<Rightarrow> error + 'f store" where
  "rel_row fns q r st =
     Inr (fold (merge_set_rel fns q r)
            (List.product (match_endpoint fns r st (rq_from q)) (match_endpoint fns r st (rq_to q)))
            st)"

definition load_rels :: "'f cypher \<Rightarrow> sources \<Rightarrow> rel_query \<Rightarrow> 'f store \<Rightarrow> error + 'f store" where
  "load_rels fns src q st = for_rows (rel_row fns q) (src (rq_file q)) st"

text \<open>
  The last statement: \<^verbatim>\<open>MATCH (p:Physician) MATCH (h:Hospital)
  WHERE (p.id + h.id) % 30 = 0 MERGE (p)-[r:EMPLOYS]->(h)\<close>.  A null operand makes the
  predicate null, which \<^verbatim>\<open>WHERE\<close> treats as false; \<^verbatim>\<open>+\<close> on integers is an error when the
  sum leaves the 64-bit range; \<^verbatim>\<open>%\<close> on integers is the remainder of truncated division; on
  text it is a type error.
\<close>

definition in_range :: "int \<Rightarrow> bool" where
  "in_range i \<longleftrightarrow> - (2 ^ 63) \<le> i \<and> i < 2 ^ 63"

fun employs_rule :: "nval option \<Rightarrow> nval option \<Rightarrow> error + bool" where
  "employs_rule None _ = Inr False"
| "employs_rule _ None = Inr False"
| "employs_rule (Some (IntV a)) (Some (IntV b)) =
     (if in_range (sint a + sint b) then Inr ((sint a + sint b) smod 30 = 0)
      else Inl ArithmeticOverflow)"
| "employs_rule _ _ = Inl TypeMismatch"

fun where_employs :: "'f store \<Rightarrow> (nat \<times> nat) list \<Rightarrow> error + (nat \<times> nat) list" where
  "where_employs st [] = Inr []"
| "where_employs st ((p, h) # phs) =
     (case employs_rule (nprops (nodes st ! p) ''id'') (nprops (nodes st ! h) ''id'') of
        Inl e \<Rightarrow> Inl e
      | Inr keep \<Rightarrow>
          (case where_employs st phs of
             Inl e \<Rightarrow> Inl e
           | Inr rest \<Rightarrow> Inr (if keep then (p, h) # rest else rest)))"

definition infer_employs :: "'f store \<Rightarrow> error + 'f store" where
  "infer_employs st =
     (case where_employs st (List.product (match_nodes st Physician []) (match_nodes st Hospital [])) of
        Inl e \<Rightarrow> Inl e
      | Inr phs \<Rightarrow> Inr (fold (\<lambda>(p, h) s. fst (merge_rel EMPLOYS p h s)) phs st))"

text \<open>
  \<^verbatim>\<open>CREATE CONSTRAINT IF NOT EXISTS FOR (n:L) REQUIRE n.id IS UNIQUE\<close>: nothing to do when
  the constraint exists; otherwise it is created unless the nodes present already break it.
\<close>

definition ids_of :: "'f store \<Rightarrow> label \<Rightarrow> nval list" where
  "ids_of st L =
     List.map_filter (\<lambda>n. if nlabel n = L then nprops n (constraint_property L) else None) (nodes st)"

definition set_uniqueness_constraints :: "label \<Rightarrow> 'f store \<Rightarrow> error + 'f store" where
  "set_uniqueness_constraints node st =
     (if node \<in> constraints st then Inr st
      else if distinct (ids_of st node) then Inr (st\<lparr>constraints := insert node (constraints st)\<rparr>)
      else Inl (ConstraintCreationFailed node))"

subsection \<open>The job\<close>

datatype stage =
    SetConstraint label
  | LoadNodes node_query
  | LoadRels rel_query
  | InferEmploys

text \<open>
  The statements in the order \<^verbatim>\<open>load_hospital_graph_from_csv\<close> issues them: the loop over
  \<^verbatim>\<open>NODES\<close>, the six node blocks, and the loop over \<^verbatim>\<open>queries\<close>.
\<close>

definition pipeline :: "stage list" where
  "pipeline =
     map SetConstraint NODES @ map LoadNodes node_queries @ map LoadRels rel_queries @ [InferEmploys]"

fun exec_stage :: "'f cypher \<Rightarrow> sources \<Rightarrow> stage \<Rightarrow> 'f store \<Rightarrow> error + 'f store" where
  "exec_stage fns src (SetConstraint node) st = set_uniqueness_constraints node st"
| "exec_stage fns src (LoadNodes q) st = load_nodes fns src q st"
| "exec_stage fns src (LoadRels q) st = load_rels fns src q st"
| "exec_stage fns src InferEmploys st = infer_employs st"

text \<open>
  Whether the function drops the result of a statement: not for the constraints, sent by
  \<^verbatim>\<open>session.execute_write(_set_uniqueness_constraints, node)\<close>; for every other statement,
  sent by \<^verbatim>\<open>_ = session.run(query, {})\<close>.
\<close>

fun result_dropped :: "stage \<Rightarrow> bool" where
  "result_dropped (SetConstraint _) = False"
| "result_dropped _ = True"

text \<open>
  Each statement commits on its own.  A failing constraint raises and leaves the
  function.  A failing statement whose result is dropped leaves the store as it was, and
  the function goes on with the next statement.  The result is the exception (if any),
  the store as committed so far, and the statements that were issued.
\<close>

fun run_stages ::
  "'f cypher \<Rightarrow> sources \<Rightarrow> stage list \<Rightarrow> 'f store \<Rightarrow> error option \<times> 'f store \<times> stage list" where
  "run_stages fns src [] st = (None, st, [])"
| "run_stages fns src (x # xs) st =
     (case exec_stage fns src x st of
        Inl e \<Rightarrow>
          if result_dropped x
          then (case run_stages fns src xs st of (res, st'', issued) \<Rightarrow> (res, st'', x # issued))
          else (Some e, st, [x])
      | Inr st' \<Rightarrow> (case run_stages fns src xs st' of (res, st'', issued) \<Rightarrow> (res, st'', x # issued)))"

text \<open>One call of the function body; \<open>up\<close> says whether the store can be reached.\<close>

definition load_attempt ::
  "'f cypher \<Rightarrow> sources \<Rightarrow> bool \<Rightarrow> 'f store \<Rightarrow> error option \<times> 'f store \<times> stage list" where
  "load_attempt fns src up st =
     (if up then run_stages fns src pipeline st else (Some ServiceUnavailable, st, []))"

text \<open>
  The decorator \<^verbatim>\<open>@retry(tries, delay, backoff, jitter)\<close>: call the function; on an
  exception, if tries remain, sleep \<open>delay\<close>, then \<open>delay := delay * backoff + jitter\<close> and
  call again; the exception of the last try is raised to the caller.  The trace records
  the calls and the sleeps.
\<close>

datatype event = Attempt nat | Sleep nat

fun retry ::
  "nat \<Rightarrow> nat \<Rightarrow> nat \<Rightarrow> nat \<Rightarrow> (nat \<Rightarrow> 's \<Rightarrow> error option \<times> 's) \<Rightarrow> nat \<Rightarrow> 's
     \<Rightarrow> error option \<times> 's \<times> event list" where
  "retry 0 delay backoff jitter f k st = (None, st, [])"
| "retry (Suc n) delay backoff jitter f k st =
     (case f k st of
        (None, st') \<Rightarrow> (None, st', [Attempt k])
      | (Some e, st') \<Rightarrow>
          if n = 0 then (Some e, st', [Attempt k])
          else (case retry n (delay * backoff + jitter) backoff jitter f (Suc k) st' of
                  (res, st'', tr) \<Rightarrow> (res, st'', Attempt k # Sleep delay # tr)))"

text \<open>
  \<^verbatim>\<open>@retry(tries=3, delay=10)\<close> around the body, with the decorator's defaults
  \<open>backoff = 1\<close> and \<open>jitter = 0\<close>.  \<open>up k\<close> says whether the store can be reached during
  call number \<open>k\<close> (counted from 0).
\<close>

definition load_hospital_graph_from_csv ::
  "'f cypher \<Rightarrow> sources \<Rightarrow> (nat \<Rightarrow> bool) \<Rightarrow> 'f store \<Rightarrow> error option \<times> 'f store \<times> event list" where
  "load_hospital_graph_from_csv fns src up st =
     retry 3 10 1 0
       (\<lambda>k s. case load_attempt fns src (up k) s of (res, s', issued) \<Rightarrow> (res, s')) 0 st"

subsection \<open>Stage classes\<close>

fun stage_rank :: "stage \<Rightarrow> nat" where
  "stage_rank (SetConstraint _) = 0"
| "stage_rank (LoadNodes _) = 1"
| "stage_rank (LoadRels _) = 2"
| "stage_rank InferEmploys = 3"

subsection \<open>A sample environment\<close>

text \<open>
  Concrete conversion functions and CSV contents, used to run the definitions on an
  example: a reader of unsigned decimal numerals below \<open>2\<^sup>6\<^sup>3\<close> for \<^verbatim>\<open>toInteger\<close>, and a
  reader of fixed-point numerals \<open>a.b\<close> (as the pair of the digits' value and the number
  of decimals) for \<^verbatim>\<open>toFloat\<close>.
\<close>

definition read_int :: "string \<Rightarrow> int option" where
  "read_int s =
     (if s \<noteq> [] \<and> list_all (\<lambda>c. c \<in> set ''0123456789'') s
      then Some (foldl (\<lambda>a c. 10 * a + (of_char c - 48)) 0 s) else None)"

definition read_decimal :: "string \<Rightarrow> (int \<times> nat) option" where
  "read_decimal s =
     (let a = takeWhile (\<lambda>c. c \<noteq> CHR ''.'') s; b = drop (Suc (length a)) s
      in case (read_int a, read_int b) of
           (Some x, Some y) \<Rightarrow> Some (x * 10 ^ length b + y, length b)
         | _ \<Rightarrow> None)"

definition read_int64 :: "string \<Rightarrow> 64 word option" where
  "read_int64 s =
     (case read_int s of
        None \<Rightarrow> None
      | Some i \<Rightarrow> if in_range i then Some (word_of_int i) else None)"

definition sample_fns :: "(int \<times> nat) cypher" where
  "sample_fns = \<lparr>toInteger = read_int64, toFloat = read_decimal\<rparr>"

definition sample_sources :: sources where
  "sample_sources L =
     (case L of
        Hospital \<Rightarrow>
          [map_of [(''hospital_id'', ''9''), (''hospital_name'', ''Mercy''), (''hospital_state'', ''CO'')],
           map_of [(''hospital_id'', ''18''), (''hospital_name'', ''Unity''), (''hospital_state'', ''TX'')],
           map_of [(''hospital_id'', ''27''), (''hospital_name'', ''Grace''), (''hospital_state'', ''FL'')]]
      | Payer \<Rightarrow> [map_of [(''payer_id'', ''1''), (''payer_name'', ''Aetna'')]]
      | Physician \<Rightarrow>
          [map_of [(''physician_id'', ''3''), (''physician_name'', ''Ann''), (''physician_dob'', ''1970-01-01''),
                   (''physician_grad_year'', ''1995''), (''medical_school'', ''UCSF'')],
           map_of [(''physician_id'', ''12''), (''physician_name'', ''Bob''), (''physician_dob'', ''1980-02-02''),
                   (''physician_grad_year'', ''2005''), (''medical_school'', ''Duke'')]]
      | Patient \<Rightarrow>
          [map_of [(''patient_id'', ''1''), (''patient_name'', ''Cy''), (''patient_sex'', ''M''),
                   (''patient_dob'', ''1990-03-03''), (''patient_blood_type'', ''O+'')]]
      | Visit \<Rightarrow>
          [map_of [(''visit_id'', ''1''), (''patient_id'', ''1''), (''hospital_id'', ''18''),
                   (''physician_id'', ''12''), (''payer_id'', ''1''), (''room_number'', ''7''),
                   (''admission_type'', ''Elective''), (''date_of_admission'', ''2021-04-28''),
                   (''test_results'', ''Normal''), (''visit_status'', ''DISCHARGED''),
                   (''discharge_date'', ''2021-05-01''), (''billing_amount'', ''1250.50'')],
           map_of [(''visit_id'', ''2''), (''patient_id'', ''1''), (''hospital_id'', ''9''),
                   (''physician_id'', ''3''), (''payer_id'', ''7''), (''room_number'', ''8''),
                   (''admission_type'', ''Urgent''), (''date_of_admission'', ''2021-06-01''),
                   (''test_results'', ''Abnormal''), (''visit_status'', ''OPEN''),
                   (''billing_amount'', ''N/A'')]]
      | Review \<Rightarrow>
          [map_of [(''review_id'', ''1''), (''visit_id'', ''1''), (''physician_name'', ''Bob''),
                   (''hospital_name'', ''Unity''), (''patient_name'', ''Cy''), (''review'', ''Fine'')]])"

definition sample_store :: "(int \<times> nat) store" where
  "sample_store = fst (snd (load_attempt sample_fns sample_sources True empty_store))"

definition renamed_hospital :: sources where
  "renamed_hospital =
     sample_sources(Hospital :=
       [map_of [(''hospital_id'', ''9''), (''hospital_name'', ''Mercy General''),
                (''hospital_state'', ''CO'')]])"

subsection \<open>What matching can see\<close>

text \<open>
  The properties of a node of label \<open>L\<close> that some \<^verbatim>\<open>SET\<close> clause of the program assigns.
  No pattern of the program mentions them.
\<close>

definition settable :: "label \<Rightarrow> string set" where
  "settable L = fst ` set (concat (map nq_set (filter (\<lambda>q. nq_label q = L) node_queries)))"

text \<open>
  The skeleton of a store: the constraints, each node's label and properties outside
  the settable ones, and each relationship's type and endpoints.
\<close>

definition skel_node :: "gnode \<Rightarrow> label \<times> (string \<rightharpoonup> nval)" where
  "skel_node n = (nlabel n, \<lambda>k. if k \<in> settable (nlabel n) then None else nprops n k)"

definition skel_rel :: "'f grel \<Rightarrow> rtype \<times> nat \<times> nat" where
  "skel_rel e = (rkind e, rsrc e, rdst e)"

definition skel ::
  "'f store \<Rightarrow> label set \<times> (label \<times> (string \<rightharpoonup> nval)) list \<times> (rtype \<times> nat \<times> nat) list" where
  "skel st = (constraints st, map skel_node (nodes st), map skel_rel (rels st))"

text \<open>
  What the proofs use of a node statement: its \<^verbatim>\<open>SET\<close> assigns settable properties
  only, its \<^verbatim>\<open>MERGE\<close> pattern mentions none of them and no property twice, and the
  pattern's \<^verbatim>\<open>id\<close> is a \<^verbatim>\<open>toInteger\<close>.  Of a relationship statement: its endpoints are
  not matched on settable properties, and its type is not EMPLOYS.  All statements of the
  pipeline are of this form.
\<close>

definition wf_nq :: "node_query \<Rightarrow> bool" where
  "wf_nq q \<longleftrightarrow>
     fst ` set (nq_set q) \<subseteq> settable (nq_label q) \<and>
     fst ` set (nq_merge q) \<inter> settable (nq_label q) = {} \<and>
     distinct (map fst (nq_merge q)) \<and>
     list_all (\<lambda>(k, e). k = ''id'' \<longrightarrow> (case e of ToInteger c \<Rightarrow> True | Col c \<Rightarrow> False))
       (nq_merge q)"

definition wf_rq :: "rel_query \<Rightarrow> bool" where
  "wf_rq q \<longleftrightarrow>
     fst (snd (rq_from q)) \<notin> settable (fst (rq_from q)) \<and>
     fst (snd (rq_to q)) \<notin> settable (fst (rq_to q)) \<and>
     rq_kind q \<noteq> EMPLOYS"

fun wf_stage :: "stage \<Rightarrow> bool" where
  "wf_stage (LoadNodes q) = wf_nq q"
| "wf_stage (LoadRels q) = wf_rq q"
| "wf_stage _ = True"

subsection \<open>Uniqueness of identifiers\<close>

definition unique_ids :: "'f store \<Rightarrow> bool" where
  "unique_ids st \<longleftrightarrow> (\<forall>L. distinct (ids_of st L))"

text \<open>
  A list of statements is guarded when every node load in it comes after the constraint
  of its label (or the label is in \<open>C\<close>, the constraints known to exist at the start).
\<close>

fun guarded :: "label set \<Rightarrow> stage list \<Rightarrow> bool" where
  "guarded C [] = True"
| "guarded C (SetConstraint L # xs) = guarded (insert L C) xs"
| "guarded C (LoadNodes q # xs) = (nq_label q \<in> C \<and> guarded C xs)"
| "guarded C (LoadRels q # xs) = guarded C xs"
| "guarded C (InferEmploys # xs) = guarded C xs"

text \<open>The store after a history of jobs, each with its own files and reachability.\<close>

definition after_runs ::
  "'f cypher \<Rightarrow> (sources \<times> (nat \<Rightarrow> bool)) list \<Rightarrow> 'f store \<Rightarrow> 'f store" where
  "after_runs fns history st =
     fold (\<lambda>(src, up) s. fst (snd (load_hospital_graph_from_csv fns src up s))) history st"

subsection \<open>Statements with nothing left to create\<close>

text \<open>
  A row of a node statement is absorbed by a store when its \<^verbatim>\<open>MERGE\<close> pattern has no null
  and matches a node; a row of a relationship statement, when every pair of matched
  endpoints already has the relationship.  A statement is absorbed when all its rows are;
  the inference, when its predicate evaluates and every selected pair has its
  relationship; a constraint, when it exists.
\<close>

definition row_absorbed :: "'f cypher \<Rightarrow> node_query \<Rightarrow> 'f store \<Rightarrow> row \<Rightarrow> bool" where
  "row_absorbed fns q s r =
     (case resolve (eval_props (eval_nexpr fns r) (nq_merge q)) of
        Inl k \<Rightarrow> False
      | Inr pat \<Rightarrow> match_nodes s (nq_label q) pat \<noteq> [])"

definition pairs_absorbed :: "'f store \<Rightarrow> rtype \<Rightarrow> (nat \<times> nat) list \<Rightarrow> bool" where
  "pairs_absorbed s t pairs = list_all (\<lambda>(a, b). match_rels s t a b \<noteq> []) pairs"

definition rel_row_absorbed :: "'f cypher \<Rightarrow> rel_query \<Rightarrow> 'f store \<Rightarrow> row \<Rightarrow> bool" where
  "rel_row_absorbed fns q s r =
     pairs_absorbed s (rq_kind q)
       (List.product (match_endpoint fns r s (rq_from q)) (match_endpoint fns r s (rq_to q)))"

fun absorbed :: "'f cypher \<Rightarrow> sources \<Rightarrow> stage \<Rightarrow> 'f store \<Rightarrow> bool" where
  "absorbed fns src (SetConstraint L) s = (L \<in> constraints s)"
| "absorbed fns src (LoadNodes q) s = list_all (row_absorbed fns q s) (src (nq_label q))"
| "absorbed fns src (LoadRels q) s = list_all (rel_row_absorbed fns q s) (src (rq_file q))"
| "absorbed fns src InferEmploys s =
     (case where_employs s (List.product (match_nodes s Physician []) (match_nodes s Hospital [])) of
        Inl e \<Rightarrow> False
      | Inr phs \<Rightarrow> pairs_absorbed s EMPLOYS phs)"

text \<open>One store grows into another: nothing is removed and no skeleton entry changes.\<close>

definition grows :: "'f store \<Rightarrow> 'f store \<Rightarrow> bool" where
  "grows s s' \<longleftrightarrow>
     constraints s \<subseteq> constraints s' \<and>
     (\<exists>ns. map skel_node (nodes s') = map skel_node (nodes s) @ ns) \<and>
     (\<exists>es. map skel_rel (rels s') = map skel_rel (rels s) @ es)"

subsection \<open>Runs that have settled\<close>

text \<open>
  A list of statements has settled in a store with a result when, going through the
  list, every statement is absorbed or fails in that store: a failing constraint ends the
  list with its failure as the result, a failing statement whose result is dropped is
  passed over, and the result is success at the end of the list.
\<close>

fun settled :: "'f cypher \<Rightarrow> sources \<Rightarrow> stage list \<Rightarrow> 'f store \<Rightarrow> error option \<Rightarrow> bool" where
  "settled fns src [] s res = (res = None)"
| "settled fns src (x # xs) s res =
     (if result_dropped x
      then (isl (exec_stage fns src x s) \<or> absorbed fns src x s) \<and> settled fns src xs s res
      else (case res of None \<Rightarrow> False | Some e \<Rightarrow> exec_stage fns src x s = Inl e) \<or>
           (absorbed fns src x s \<and> settled fns src xs s res))"

text \<open>
  A statement touches a label when it can change what a node statement of that label
  sees: the constraint of the label, and the node statements of the label.
\<close>

fun touches :: "label \<Rightarrow> stage \<Rightarrow> bool" where
  "touches L (SetConstraint K) = (K = L)"
| "touches L (LoadNodes q) = (nq_label q = L)"
| "touches L _ = False"

text \<open>
  In an ordered list, a relationship load or the inference is followed by relationship
  loads and the inference only, and a node load by no statement that touches its label.
\<close>

fun ordered :: "stage list \<Rightarrow> bool" where
  "ordered [] = True"
| "ordered (x # xs) =
     ((stage_rank x \<le> 1 \<or> list_all (\<lambda>y. 2 \<le> stage_rank y) xs) \<and>
      (case x of LoadNodes q \<Rightarrow> list_all (\<lambda>y. \<not> touches (nq_label q) y) xs | _ \<Rightarrow> True) \<and>
      ordered xs)"

text \<open>
  What a node statement of label \<open>L\<close> sees of a store: whether \<open>L\<close> carries the
  constraint, and the skeletons of the nodes of label \<open>L\<close>.
\<close>

definition kind_view :: "'f store \<Rightarrow> label \<Rightarrow> bool \<times> (label \<times> (string \<rightharpoonup> nval)) list" where
  "kind_view s L = (L \<in> constraints s, filter (\<lambda>p. fst p = L) (map skel_node (nodes s)))"

definition node_count :: "'f store \<Rightarrow> label \<Rightarrow> nat" where
  "node_count s K = length (filter (\<lambda>n. nlabel n = K) (nodes s))"

definition edge_count :: "'f store \<Rightarrow> rtype \<Rightarrow> nat" where
  "edge_count s R = length (filter (\<lambda>e. rkind e = R) (rels s))"

definition no_parallel :: "'f store \<Rightarrow> bool" where
  "no_parallel s \<longleftrightarrow> distinct (map skel_rel (rels s))"

subsection \<open>The EMPLOYS rule\<close>

text \<open>
  \<open>p\<close> and \<open>h\<close> are a Physician node and a Hospital node whose integer identifiers
  add up to a multiple of 30.
\<close>

definition employs_pair :: "'f store \<Rightarrow> nat \<Rightarrow> nat \<Rightarrow> bool" where
  "employs_pair s p h \<longleftrightarrow>
     p < length (nodes s) \<and> h < length (nodes s) \<and>
     nlabel (nodes s ! p) = Physician \<and> nlabel (nodes s ! h) = Hospital \<and>
     (case (nprops (nodes s ! p) ''id'', nprops (nodes s ! h) ''id'') of
        (Some (IntV x), Some (IntV y)) \<Rightarrow> (sint x + sint y) mod 30 = 0
      | _ \<Rightarrow> False)"

text \<open>
  No sum of the identifiers of a Physician node and a Hospital node leaves the 64-bit
  range.
\<close>

definition sums_in_range :: "'f store \<Rightarrow> bool" where
  "sums_in_range s \<longleftrightarrow>
     list_all
       (\<lambda>(p, h). case (nprops (nodes s ! p) ''id'', nprops (nodes s ! h) ''id'') of
                    (Some (IntV x), Some (IntV y)) \<Rightarrow> in_range (sint x + sint y)
                  | _ \<Rightarrow> True)
       (List.product (match_nodes s Physician []) (match_nodes s Hospital []))"

text \<open>
  The sample files with a physician whose identifier is the largest 64-bit integer and a
  hospital with identifier 23: the two add up to a multiple of 30 outside the range.
\<close>

definition overflow_sources :: sources where
  "overflow_sources =
     sample_sources(
       Physician :=
         sample_sources Physician @
         [map_of [(''physician_id'', ''9223372036854775807''), (''physician_name'', ''Max''),
                  (''physician_dob'', ''1975-05-05''), (''physician_grad_year'', ''2000''),
                  (''medical_school'', ''Yale'')]],
       Hospital :=
         sample_sources Hospital @
         [map_of [(''hospital_id'', ''23''), (''hospital_name'', ''Hope''),
                  (''hospital_state'', ''NY'')]])"

definition overflow_store :: "(int \<times> nat) store" where
  "overflow_store = fst (snd (load_attempt sample_fns overflow_sources True empty_store))"

text \<open>The sample files with a payer whose identifier is not a number.\<close>

definition bad_payer :: sources where
  "bad_payer =
     sample_sources(Payer :=
       [map_of [(''payer_id'', ''1''), (''payer_name'', ''Aetna'')],
        map_of [(''payer_id'', ''n/a''), (''payer_name'', ''Cigna'')]])"

text \<open>Every EMPLOYS relationship of the store joins such a pair.\<close>

definition employs_sound :: "'f store \<Rightarrow> bool" where
  "employs_sound s \<longleftrightarrow>
     list_all (\<lambda>e. rkind e = EMPLOYS \<longrightarrow> employs_pair s (rsrc e) (rdst e)) (rels s)"

definition changed_visit :: sources where
  "changed_visit =
     sample_sources(Visit :=
       [map_of [(''visit_id'', ''1''), (''patient_id'', ''1''), (''hospital_id'', ''18''),
                (''physician_id'', ''12''), (''payer_id'', ''1''), (''room_number'', ''9''),
                (''admission_type'', ''Elective''), (''date_of_admission'', ''2021-04-28''),
                (''test_results'', ''Normal''), (''visit_status'', ''DISCHARGED''),
                (''discharge_date'', ''2021-05-01''), (''billing_amount'', ''1250.50'')]])"

text \<open>Every node's \<^verbatim>\<open>id\<close> is an integer, when it has one.\<close>

definition int_ids :: "'f store \<Rightarrow> bool" where
  "int_ids s \<longleftrightarrow>
     list_all (\<lambda>n. case nprops n ''id'' of Some (StrV x) \<Rightarrow> False | _ \<Rightarrow> True) (nodes s)"

section \<open>Stage order\<close>

text \<open>
  The two ways through a statement of the list: it raises, and the run ends there; or the
  run goes on, from the store the statement gives or, when the statement failed and its
  result is dropped, from the same store.
\<close>

lemma run_stages_Cons_cases [consumes 1, case_names raised continued]:
  assumes "run_stages fns src (x # xs) s = (res, s', issued)"
  obtains e where "exec_stage fns src x s = Inl e" "\<not> result_dropped x" "res = Some e" "s' = s"
      "issued = [x]"
  | s1 i2 where
      "exec_stage fns src x s = Inr s1 \<or>
       ((\<exists>e. exec_stage fns src x s = Inl e) \<and> result_dropped x \<and> s1 = s)"
      "run_stages fns src xs s1 = (res, s', i2)" "issued = x # i2"
proof (cases "exec_stage fns src x s")
  case (Inl e)
  show ?thesis
  proof (cases "result_dropped x")
    case True
    obtain r2 s2 i2 where r: "run_stages fns src xs s = (r2, s2, i2)"
      by (cases "run_stages fns src xs s") auto
    with Inl True assms have "r2 = res" "s2 = s'" "issued = x # i2" by simp_all
    with r Inl True that(2)[of s i2] show ?thesis by blast
  next
    case False
    with Inl assms have "res = Some e" "s' = s" "issued = [x]" by simp_all
    with that(1)[OF Inl False] show ?thesis by blast
  qed
next
  case (Inr s1)
  obtain r2 s2 i2 where r: "run_stages fns src xs s1 = (r2, s2, i2)"
    by (cases "run_stages fns src xs s1") auto
  with Inr assms have "r2 = res" "s2 = s'" "issued = x # i2" by simp_all
  with r Inr that(2)[of s1 i2] show ?thesis by blast
qed

lemma run_stages_issued:
  "run_stages fns src xs st = (res, st', issued) \<Longrightarrow>
     (\<exists>n. issued = take n xs) \<and> (res = None \<longrightarrow> issued = xs)"
proof (induction xs arbitrary: st res st' issued)
  case Nil
  then show ?case by simp
next
  case (Cons x xs)
  from Cons.prems show ?case
  proof (cases rule: run_stages_Cons_cases)
    case (raised e)
    then show ?thesis by (auto intro: exI[of _ 1])
  next
    case (continued s1 i2)
    from Cons.IH[OF continued(2)] have ih: "(\<exists>n. i2 = take n xs) \<and> (res = None \<longrightarrow> i2 = xs)" .
    then obtain n where "i2 = take n xs" by blast
    then have "issued = take (Suc n) (x # xs)" using continued(3) by simp
    with ih continued(3) show ?thesis by blast
  qed
qed

lemma length_pipeline: "length pipeline = 18"
  by (simp add: pipeline_def NODES_def node_queries_def rel_queries_def)

lemma pipeline_nth:
  "j < 18 \<Longrightarrow> pipeline ! j =
     (if j < 6 then SetConstraint (NODES ! j)
      else if j < 12 then LoadNodes (node_queries ! (j - 6))
      else if j < 17 then LoadRels (rel_queries ! (j - 12))
      else InferEmploys)"
proof -
  have len: "length NODES = 6" "length node_queries = 6" "length rel_queries = 5"
    by (simp_all add: NODES_def node_queries_def rel_queries_def)
  assume "j < 18"
  then show ?thesis by (auto simp: pipeline_def nth_append len)
qed

lemma pipeline_rank:
  "j < 18 \<Longrightarrow> stage_rank (pipeline ! j) = (if j < 6 then 0 else if j < 12 then 1 else if j < 17 then 2 else 3)"
  by (simp add: pipeline_nth)

lemma all_labels: "L \<in> set NODES"
  by (cases L) (simp_all add: NODES_def)

lemma constraint_position: "\<exists>i<6. pipeline ! i = SetConstraint L"
proof -
  from all_labels[of L] obtain i where "i < length NODES" "NODES ! i = L"
    by (auto simp: in_set_conv_nth)
  then show ?thesis by (auto simp: pipeline_nth NODES_def intro!: exI[of _ i])
qed

lemma node_load_position:
  assumes "q \<in> set node_queries" shows "\<exists>i<12. pipeline ! i = LoadNodes q"
proof -
  from assms obtain i where "i < length node_queries" "node_queries ! i = q"
    by (auto simp: in_set_conv_nth)
  then have "i + 6 < 12" "pipeline ! (i + 6) = LoadNodes q"
    by (auto simp: pipeline_nth node_queries_def)
  then show ?thesis by blast
qed

lemma rel_load_position:
  assumes "q \<in> set rel_queries" shows "\<exists>i<17. pipeline ! i = LoadRels q"
proof -
  from assms obtain i where "i < length rel_queries" "rel_queries ! i = q"
    by (auto simp: in_set_conv_nth)
  then have "i + 12 < 17" "pipeline ! (i + 12) = LoadRels q"
    by (auto simp: pipeline_nth rel_queries_def)
  then show ?thesis by blast
qed

text \<open>
  C7: in every attempt the statements issued are an initial segment of the fixed pipeline,
  and all of it when the attempt succeeds.  So whenever a node load is issued, the
  constraint of each of the six node kinds was issued before it; whenever a relationship
  load is issued, all six node loads were issued before it; whenever the inference is
  issued, all five sourced relationship loads were issued before it; a successful attempt
  ends with the inference; and no statement of an earlier class follows one of a later
  class.
\<close>

theorem stage_order:
  assumes "load_attempt fns src up st = (res, st', issued)"
  shows "(\<exists>n. issued = take n pipeline) \<and>
         (res = None \<longrightarrow> issued = pipeline \<and> last issued = InferEmploys) \<and>
         (\<forall>j<length issued. stage_rank (issued ! j) = 1 \<longrightarrow>
            (\<forall>L. \<exists>i<j. issued ! i = SetConstraint L)) \<and>
         (\<forall>j<length issued. stage_rank (issued ! j) = 2 \<longrightarrow>
            (\<forall>q\<in>set node_queries. \<exists>i<j. issued ! i = LoadNodes q)) \<and>
         (\<forall>j<length issued. issued ! j = InferEmploys \<longrightarrow>
            (\<forall>q\<in>set rel_queries. \<exists>i<j. issued ! i = LoadRels q)) \<and>
         (\<forall>i j. i < j \<and> j < length issued \<longrightarrow> stage_rank (issued ! i) \<le> stage_rank (issued ! j))"
proof -
  have pre: "(\<exists>n. issued = take n pipeline) \<and> (res = None \<longrightarrow> issued = pipeline)"
  proof (cases up)
    case True
    with assms have "run_stages fns src pipeline st = (res, st', issued)"
      by (simp add: load_attempt_def)
    then show ?thesis by (rule run_stages_issued)
  next
    case False
    with assms have "issued = []" "res \<noteq> None" by (auto simp: load_attempt_def)
    then show ?thesis by auto
  qed
  then obtain n where n: "issued = take n pipeline" by blast
  have nth: "issued ! j = pipeline ! j" "j < 18" if "j < length issued" for j
    using that n length_pipeline by auto
  have last: "last pipeline = InferEmploys" by (simp add: pipeline_def)
  have a: "\<exists>i<j. issued ! i = SetConstraint L"
    if "j < length issued" "stage_rank (issued ! j) = 1" for j L
  proof -
    from that nth have "6 \<le> j" by (auto simp: pipeline_rank split: if_splits)
    moreover obtain i where "i < 6" "pipeline ! i = SetConstraint L"
      using constraint_position by blast
    ultimately show ?thesis using that(1) nth(1)[of i] by (intro exI[of _ i]) auto
  qed
  have b: "\<exists>i<j. issued ! i = LoadNodes q"
    if "j < length issued" "stage_rank (issued ! j) = 2" "q \<in> set node_queries" for j q
  proof -
    note q = that(3)
    from that nth have "12 \<le> j" by (auto simp: pipeline_rank split: if_splits)
    moreover obtain i where "i < 12" "pipeline ! i = LoadNodes q"
      using node_load_position[OF q] by blast
    ultimately show ?thesis using that(1) nth(1)[of i] by (intro exI[of _ i]) auto
  qed
  have c: "\<exists>i<j. issued ! i = LoadRels q"
    if "j < length issued" "issued ! j = InferEmploys" "q \<in> set rel_queries" for j q
  proof -
    note q = that(3)
    from that nth have "stage_rank (pipeline ! j) = 3" "j < 18" by auto
    then have "17 \<le> j" by (auto simp: pipeline_rank split: if_splits)
    moreover obtain i where "i < 17" "pipeline ! i = LoadRels q"
      using rel_load_position[OF q] by blast
    ultimately show ?thesis using that(1) nth(1)[of i] by (intro exI[of _ i]) auto
  qed
  have d: "stage_rank (issued ! i) \<le> stage_rank (issued ! j)" if "i < j" "j < length issued" for i j
  proof -
    from that have "i < length issued" by simp
    with that nth[of i] nth[of j] show ?thesis by (auto simp: pipeline_rank)
  qed
  have e: "res = None \<longrightarrow> issued = pipeline \<and> last issued = InferEmploys"
    using pre last by simp
  from pre have f: "\<exists>n. issued = take n pipeline" by simp
  show ?thesis
    apply (intro conjI)
         apply (rule f)
        apply (rule e)
       apply (intro allI impI, erule (1) a)
      apply (intro allI impI ballI, erule (2) b)
     apply (intro allI impI ballI, erule (2) c)
    apply (intro allI impI, elim conjE, erule (1) d)
    done
qed

lemma sample_run_ok: "fst (load_attempt sample_fns sample_sources True empty_store) = None"
  by code_simp

theorem stage_order_witness:
  "snd (snd (load_attempt sample_fns sample_sources True empty_store)) = pipeline \<and>
   last (snd (snd (load_attempt sample_fns sample_sources True empty_store))) = InferEmploys"
proof -
  obtain res st' issued
    where run: "load_attempt sample_fns sample_sources True (empty_store :: (int \<times> nat) store) = (res, st', issued)"
    by (cases "load_attempt sample_fns sample_sources True (empty_store :: (int \<times> nat) store)") auto
  with sample_run_ok have "res = None" by simp
  with stage_order[OF run] have "issued = pipeline" "last issued = InferEmploys" by blast+
  with run show ?thesis by simp
qed

section \<open>Retry\<close>

text \<open>
  C8: the job is three calls at most, with a sleep of 10 between two calls and no other
  sleep.  When the store cannot be reached during the first two calls and can during the
  third, the job ends as a single call on a reachable store does (it succeeds when that
  call does); when it cannot be reached during any of the three, the job ends with the
  failure of the third call and the store untouched.  A failure is reported only after
  the third call.
\<close>

theorem retry_policy:
  fixes fns :: "'f cypher"
  assumes run: "load_attempt fns src True st = (res, st', issued)"
  shows "(\<not> up 0 \<and> \<not> up 1 \<and> up 2 \<longrightarrow>
            load_hospital_graph_from_csv fns src up st =
              (res, st', [Attempt 0, Sleep 10, Attempt 1, Sleep 10, Attempt 2])) \<and>
         (\<not> up 0 \<and> \<not> up 1 \<and> \<not> up 2 \<longrightarrow>
            load_hospital_graph_from_csv fns src up st =
              (Some ServiceUnavailable, st, [Attempt 0, Sleep 10, Attempt 1, Sleep 10, Attempt 2])) \<and>
         snd (snd (load_hospital_graph_from_csv fns src up st)) \<in>
            {[Attempt 0], [Attempt 0, Sleep 10, Attempt 1],
             [Attempt 0, Sleep 10, Attempt 1, Sleep 10, Attempt 2]} \<and>
         (fst (load_hospital_graph_from_csv fns src up st) \<noteq> None \<longrightarrow>
            snd (snd (load_hospital_graph_from_csv fns src up st)) =
              [Attempt 0, Sleep 10, Attempt 1, Sleep 10, Attempt 2])"
proof -
  have a: "\<not> up 0 \<and> \<not> up 1 \<and> up 2 \<longrightarrow>
            load_hospital_graph_from_csv fns src up st =
              (res, st', [Attempt 0, Sleep 10, Attempt 1, Sleep 10, Attempt 2])"
    using run
    by (simp add: load_hospital_graph_from_csv_def load_attempt_def numeral_2_eq_2 numeral_3_eq_3
          split: option.splits)
  have b: "\<not> up 0 \<and> \<not> up 1 \<and> \<not> up 2 \<longrightarrow>
            load_hospital_graph_from_csv fns src up st =
              (Some ServiceUnavailable, st, [Attempt 0, Sleep 10, Attempt 1, Sleep 10, Attempt 2])"
    by (simp add: load_hospital_graph_from_csv_def load_attempt_def numeral_2_eq_2 numeral_3_eq_3)
  have shape: "snd (snd (retry 3 10 1 0 f 0 s)) \<in>
            {[Attempt 0], [Attempt 0, Sleep 10, Attempt 1],
             [Attempt 0, Sleep 10, Attempt 1, Sleep 10, Attempt 2]} \<and>
         (fst (retry 3 10 1 0 f 0 s) \<noteq> None \<longrightarrow>
            snd (snd (retry 3 10 1 0 f 0 s)) =
              [Attempt 0, Sleep 10, Attempt 1, Sleep 10, Attempt 2])"
    for f :: "nat \<Rightarrow> 'f store \<Rightarrow> error option \<times> 'f store" and s
    by (simp add: numeral_2_eq_2 numeral_3_eq_3 split: option.splits prod.splits)
  from a b shape show ?thesis
    unfolding load_hospital_graph_from_csv_def by simp
qed

theorem retry_policy_witness:
  "load_hospital_graph_from_csv sample_fns sample_sources (\<lambda>k. 2 \<le> k) empty_store =
     (None, sample_store, [Attempt 0, Sleep 10, Attempt 1, Sleep 10, Attempt 2]) \<and>
   load_hospital_graph_from_csv sample_fns sample_sources (\<lambda>k. False) empty_store =
     (Some ServiceUnavailable, empty_store, [Attempt 0, Sleep 10, Attempt 1, Sleep 10, Attempt 2])"
proof -
  obtain res st' issued
    where run: "load_attempt sample_fns sample_sources True (empty_store :: (int \<times> nat) store) = (res, st', issued)"
    by (cases "load_attempt sample_fns sample_sources True (empty_store :: (int \<times> nat) store)") auto
  with sample_run_ok have "res = None" "st' = sample_store" by (simp_all add: sample_store_def)
  with retry_policy[OF run, of "\<lambda>k. 2 \<le> k"] retry_policy[OF run, of "\<lambda>k. False"]
  show ?thesis by simp
qed

section \<open>Node upserts\<close>

text \<open>
  C1, at a hospital whose name changes between two runs: the second run finds no node
  with the new name, tries to create one, and is refused by the uniqueness constraint.
  The statement fails, the function never reads the failure and returns normally after
  one call, and the node keeps its first name.
\<close>

theorem hospital_rename_rejected:
  "fst (load_attempt sample_fns sample_sources True empty_store) = None \<and>
   isl (load_nodes sample_fns renamed_hospital hospital_nodes sample_store) \<and>
   projl (load_nodes sample_fns renamed_hospital hospital_nodes sample_store) =
     ConstraintViolation Hospital \<and>
   fst (load_hospital_graph_from_csv sample_fns renamed_hospital (\<lambda>k. True) sample_store) = None \<and>
   snd (snd (load_hospital_graph_from_csv sample_fns renamed_hospital (\<lambda>k. True) sample_store)) =
     [Attempt 0] \<and>
   map (\<lambda>n. nprops n ''name'')
     (filter (\<lambda>n. nlabel n = Hospital \<and> nprops n ''id'' = Some (IntV 9))
        (nodes (fst (snd (load_hospital_graph_from_csv sample_fns renamed_hospital
                            (\<lambda>k. True) sample_store))))) =
     [Some (StrV ''Mercy'')]"
  by code_simp

text \<open>
  The visit statement, which merges on \<^verbatim>\<open>id\<close> and then sets the attributes, does take a
  changed record: the run succeeds and the one node carries the new room number.
\<close>

lemma visit_change_overwrites:
  "fst (load_attempt sample_fns changed_visit True sample_store) = None \<and>
   map (\<lambda>n. nprops n ''room_number'')
     (filter (\<lambda>n. nlabel n = Visit \<and> nprops n ''id'' = Some (IntV 1)) (nodes sample_store)) =
     [Some (IntV 7)] \<and>
   map (\<lambda>n. nprops n ''room_number'')
     (filter (\<lambda>n. nlabel n = Visit \<and> nprops n ''id'' = Some (IntV 1))
        (nodes (fst (snd (load_attempt sample_fns changed_visit True sample_store))))) =
     [Some (IntV 9)]"
  by code_simp

text \<open>
  C10: the constraint is on \<^verbatim>\<open>id\<close> for each label and both endpoints of each
  relationship statement are looked up by \<^verbatim>\<open>id\<close>, but only the visit statement merges
  on \<^verbatim>\<open>id\<close> alone: the other five merge on every property of the node.
\<close>

theorem merge_keys:
  "map constraint_property NODES = replicate 6 ''id'' \<and>
   map (\<lambda>q. (fst (snd (rq_from q)), fst (snd (rq_to q)))) rel_queries = replicate 5 (''id'', ''id'') \<and>
   map (\<lambda>q. (nq_label q, map fst (nq_merge q))) node_queries =
     [(Hospital, [''id'', ''name'', ''state_name'']),
      (Payer, [''id'', ''name'']),
      (Physician, [''id'', ''name'', ''dob'', ''grad_year'', ''school'']),
      (Patient, [''id'', ''name'', ''sex'', ''dob'', ''blood_type'']),
      (Visit, [''id'']),
      (Review, [''id'', ''physician_name'', ''hospital_name'', ''patient_name'', ''text''])]"
  by (simp add: NODES_def constraint_property_def rel_queries_def node_queries_def
        has_rels_def at_rels_def treats_rels_def covered_by_rels_def writes_rels_def
        hospital_nodes_def payer_nodes_def physician_nodes_def patient_nodes_def
        visit_nodes_def review_nodes_def numeral_eq_Suc)

section \<open>Failing and skipped records\<close>

lemma resolve_null: "(k, None) \<in> set kvs \<Longrightarrow> \<exists>k'. resolve kvs = Inl k'"
proof (induction kvs rule: resolve.induct)
  case (3 k' v kvs)
  then show ?case by (auto split: sum.splits)
qed auto

lemma node_row_null:
  assumes "(k, e) \<in> set (nq_merge q)" "eval_nexpr fns r e = None"
  shows "\<exists>err. node_row fns q r st = Inl err"
proof -
  from assms have "(k, None) \<in> set (eval_props (eval_nexpr fns r) (nq_merge q))"
    by (force simp: eval_props_def)
  from resolve_null[OF this] show ?thesis by (auto simp: node_row_def)
qed

lemma for_rows_fails:
  assumes "r \<in> set rows" "\<And>st. \<exists>err. f r st = Inl err"
  shows "\<exists>err. for_rows f rows st = Inl err"
  using assms(1)
proof (induction rows arbitrary: st)
  case Nil
  then show ?case by simp
next
  case (Cons a rows)
  show ?case
  proof (cases "f a st")
    case (Inl e)
    then show ?thesis by simp
  next
    case (Inr st1)
    with Cons.prems assms(2)[of st] have "r \<in> set rows" by auto
    from Cons.IH[OF this] Inr show ?thesis by simp
  qed
qed

text \<open>
  C5: a relationship statement never fails on a record.  A record one of whose endpoints
  matches no node leaves the store as it is, and the statement goes on with the records
  after it as if the record were not in the file.
\<close>

theorem unresolved_endpoint_skipped:
  assumes "match_endpoint fns r st (rq_from q) = [] \<or> match_endpoint fns r st (rq_to q) = []"
  shows "rel_row fns q r st = Inr st \<and>
         for_rows (rel_row fns q) (r # rs) st = for_rows (rel_row fns q) rs st \<and>
         (\<exists>st'. for_rows (rel_row fns q) rs st = Inr st') \<and>
         (\<exists>st'. load_rels fns src q st = Inr st')"
proof -
  have never: "\<exists>st'. for_rows (rel_row fns q) rows s = Inr st'" for rows s
    by (induction rows arbitrary: s) (auto simp: rel_row_def)
  have prod: "List.product xs [] = []" for xs :: "nat list"
    by (induction xs) simp_all
  from assms have "rel_row fns q r st = Inr st"
    by (auto simp: rel_row_def prod)
  with never show ?thesis by (simp add: load_rels_def)
qed

theorem unresolved_endpoint_skipped_witness:
  "match_endpoint sample_fns (sample_sources Visit ! 1) sample_store (rq_to covered_by_rels) = [] \<and>
   rel_row sample_fns covered_by_rels (sample_sources Visit ! 1) sample_store = Inr sample_store \<and>
   (\<exists>st'. load_rels sample_fns sample_sources covered_by_rels sample_store = Inr st')"
proof -
  have h: "match_endpoint sample_fns (sample_sources Visit ! 1) sample_store (rq_to covered_by_rels) = []"
    by code_simp
  then have "match_endpoint sample_fns (sample_sources Visit ! 1) sample_store (rq_from covered_by_rels) = []
      \<or> match_endpoint sample_fns (sample_sources Visit ! 1) sample_store (rq_to covered_by_rels) = []"
    by simp
  from unresolved_endpoint_skipped[OF this, of "[]" sample_sources] h show ?thesis by blast
qed

section \<open>Attributes of COVERED\_BY\<close>

lemma rel_matches_update:
  "x < length es \<Longrightarrow>
     rel_matches (es[j := (es ! j)\<lparr>rprops := f\<rparr>] ! x) t a b = rel_matches (es ! x) t a b"
  by (cases "x = j") (simp_all add: rel_matches_def)

lemma match_rels_set_rel_prop [simp]:
  "match_rels (set_rel_prop k v j st) t a b = match_rels st t a b"
  by (auto simp: match_rels_def set_rel_prop_def rel_matches_update intro!: filter_cong)

lemma set_rel_prop_frame [simp]:
  "nodes (set_rel_prop k v j st) = nodes st"
  "constraints (set_rel_prop k v j st) = constraints st"
  "length (rels (set_rel_prop k v j st)) = length (rels st)"
  by (simp_all add: set_rel_prop_def)

lemma set_rel_prop_rprops:
  "j < length (rels st) \<Longrightarrow>
     rprops (rels (set_rel_prop k v j st) ! j) = (rprops (rels st ! j))(k := v)"
  by (simp add: set_rel_prop_def)

lemma match_rels_bound: "j \<in> set (match_rels st t a b) \<Longrightarrow> j < length (rels st)"
  by (auto simp: match_rels_def)

lemma match_rels_created:
  "match_rels st t a b = [] \<Longrightarrow>
     match_rels (st\<lparr>rels := rels st @ [\<lparr>rkind = t, rsrc = a, rdst = b, rprops = Map.empty\<rparr>]\<rparr>) t a b
       = [length (rels st)]"
proof -
  assume "match_rels st t a b = []"
  then have none: "\<forall>j<length (rels st). \<not> rel_matches (rels st ! j) t a b"
    by (auto simp: match_rels_def filter_empty_conv)
  then have "filter (\<lambda>j. rel_matches ((rels st @ [\<lparr>rkind = t, rsrc = a, rdst = b, rprops = Map.empty\<rparr>]) ! j) t a b)
               [0..<length (rels st)] = []"
    by (auto simp: filter_empty_conv nth_append)
  then show ?thesis
    by (simp add: match_rels_def rel_matches_def)
qed

text \<open>
  C6: take a record of the visits file whose visit and payer each match one node, in a
  store with at most one COVERED\_BY relationship between the two.  After the record the
  statement has not failed, there is exactly one such relationship (a new one only when
  there was none), its \<^verbatim>\<open>service_date\<close> is the record's \<^verbatim>\<open>discharge_date\<close>, and its
  \<^verbatim>\<open>billing_amount\<close> is the parsed amount when \<^verbatim>\<open>toFloat\<close> parses the text and is absent
  when it does not.
\<close>

theorem covered_by_attributes:
  assumes v: "match_endpoint fns r st (rq_from covered_by_rels) = [v]"
    and p: "match_endpoint fns r st (rq_to covered_by_rels) = [p]"
    and one: "length (match_rels st COVERED_BY v p) \<le> 1"
  shows "\<exists>st' j. rel_row fns covered_by_rels r st = Inr st' \<and>
           match_rels st' COVERED_BY v p = [j] \<and> j < length (rels st') \<and>
           nodes st' = nodes st \<and>
           length (rels st') =
             (if match_rels st COVERED_BY v p = [] then Suc (length (rels st)) else length (rels st)) \<and>
           rprops (rels st' ! j) ''service_date'' = map_option TextV (r ''discharge_date'') \<and>
           (\<forall>s x. r ''billing_amount'' = Some s \<and> toFloat fns s = Some x \<longrightarrow>
              rprops (rels st' ! j) ''billing_amount'' = Some (FloatV x)) \<and>
           (\<forall>s. r ''billing_amount'' = Some s \<and> toFloat fns s = None \<longrightarrow>
              rprops (rels st' ! j) ''billing_amount'' = None)"
proof -
  let ?d = "map_option TextV (r ''discharge_date'')"
  let ?b = "eval_rexpr fns r (ToFloat ''billing_amount'')"
  have amount: "(\<forall>s x. r ''billing_amount'' = Some s \<and> toFloat fns s = Some x \<longrightarrow> ?b = Some (FloatV x)) \<and>
                (\<forall>s. r ''billing_amount'' = Some s \<and> toFloat fns s = None \<longrightarrow> ?b = None)"
    by (auto simp: eval_rexpr_def)
  have sets: "fold (set_rel_props (map (\<lambda>(k, e). (k, eval_rexpr fns r e)) (rq_set covered_by_rels))) [j] s =
              set_rel_prop ''billing_amount'' ?b j (set_rel_prop ''service_date'' ?d j s)" for j s
    by (simp add: covered_by_rels_def eval_rexpr_def set_rel_props_def)
  have row: "rel_row fns covered_by_rels r st = Inr (merge_set_rel fns covered_by_rels r (v, p) st)"
    by (simp add: rel_row_def v p)
  show ?thesis
  proof (cases "match_rels st COVERED_BY v p")
    case Nil
    let ?s1 = "st\<lparr>rels := rels st @ [\<lparr>rkind = COVERED_BY, rsrc = v, rdst = p, rprops = Map.empty\<rparr>]\<rparr>"
    let ?j = "length (rels st)"
    let ?st' = "set_rel_prop ''billing_amount'' ?b ?j (set_rel_prop ''service_date'' ?d ?j ?s1)"
    have m: "merge_set_rel fns covered_by_rels r (v, p) st = ?st'"
      using Nil sets[of ?j ?s1] by (simp add: merge_set_rel_def merge_rel_def covered_by_rels_def)
    have "match_rels ?st' COVERED_BY v p = [?j]"
      using match_rels_created[OF Nil] by simp
    moreover have "rprops (rels ?st' ! ?j) = (Map.empty(''service_date'' := ?d))(''billing_amount'' := ?b)"
      by (simp add: set_rel_prop_rprops)
    ultimately show ?thesis using row m Nil amount
      by (intro exI[of _ ?st'] exI[of _ ?j]) (auto simp: set_rel_prop_def)
  next
    case (Cons j js)
    with one have js: "js = []" by simp
    let ?st' = "set_rel_prop ''billing_amount'' ?b j (set_rel_prop ''service_date'' ?d j st)"
    have jb: "j < length (rels st)" using match_rels_bound[of j st COVERED_BY v p] Cons by simp
    have m: "merge_set_rel fns covered_by_rels r (v, p) st = ?st'"
      using Cons js sets[of j st] by (simp add: merge_set_rel_def merge_rel_def covered_by_rels_def)
    have "match_rels ?st' COVERED_BY v p = [j]" using Cons js by simp
    moreover have "rprops (rels ?st' ! j) ''service_date'' = ?d"
      "rprops (rels ?st' ! j) ''billing_amount'' = ?b"
      using jb by (simp_all add: set_rel_prop_rprops)
    ultimately show ?thesis using row m Cons amount jb
      by (intro exI[of _ ?st'] exI[of _ j]) auto
  qed
qed

theorem covered_by_attributes_witness:
  "match_endpoint sample_fns (sample_sources Visit ! 0) sample_store (rq_from covered_by_rels) = [7] \<and>
   match_endpoint sample_fns (sample_sources Visit ! 0) sample_store (rq_to covered_by_rels) = [3] \<and>
   length (match_rels sample_store COVERED_BY 7 3) \<le> 1 \<and>
   (\<exists>st' j. rel_row sample_fns covered_by_rels (sample_sources Visit ! 0) sample_store = Inr st' \<and>
      match_rels st' COVERED_BY 7 3 = [j] \<and>
      rprops (rels st' ! j) ''service_date'' = Some (TextV ''2021-05-01'') \<and>
      rprops (rels st' ! j) ''billing_amount'' = Some (FloatV (125050, 2))) \<and>
   (\<exists>st' j. rel_row sample_fns covered_by_rels ((sample_sources Visit ! 0)(''billing_amount'' \<mapsto> ''N/A''))
                sample_store = Inr st' \<and>
      match_rels st' COVERED_BY 7 3 = [j] \<and>
      rprops (rels st' ! j) ''service_date'' = Some (TextV ''2021-05-01'') \<and>
      rprops (rels st' ! j) ''billing_amount'' = None)"
proof -
  let ?r = "sample_sources Visit ! 0"
  let ?r2 = "?r(''billing_amount'' \<mapsto> ''N/A'')"
  have v: "match_endpoint sample_fns ?r sample_store (rq_from covered_by_rels) = [7]"
    and p: "match_endpoint sample_fns ?r sample_store (rq_to covered_by_rels) = [3]"
    and v2: "match_endpoint sample_fns ?r2 sample_store (rq_from covered_by_rels) = [7]"
    and p2: "match_endpoint sample_fns ?r2 sample_store (rq_to covered_by_rels) = [3]"
    and one: "length (match_rels sample_store COVERED_BY 7 3) \<le> 1"
    by code_simp+
  have d: "?r ''discharge_date'' = Some ''2021-05-01''"
    and b: "?r ''billing_amount'' = Some ''1250.50''"
    and f: "toFloat sample_fns ''1250.50'' = Some (125050, 2)"
    and d2: "?r2 ''discharge_date'' = Some ''2021-05-01''"
    and b2: "?r2 ''billing_amount'' = Some ''N/A''"
    and f2: "toFloat sample_fns ''N/A'' = None"
    by code_simp+
  from covered_by_attributes[OF v p one] d b f
  have 1: "\<exists>st' j. rel_row sample_fns covered_by_rels ?r sample_store = Inr st' \<and>
      match_rels st' COVERED_BY 7 3 = [j] \<and>
      rprops (rels st' ! j) ''service_date'' = Some (TextV ''2021-05-01'') \<and>
      rprops (rels st' ! j) ''billing_amount'' = Some (FloatV (125050, 2))"
    by (auto simp del: fun_upd_apply)
  from covered_by_attributes[OF v2 p2 one] d2 b2 f2
  have 2: "\<exists>st' j. rel_row sample_fns covered_by_rels ?r2 sample_store = Inr st' \<and>
      match_rels st' COVERED_BY 7 3 = [j] \<and>
      rprops (rels st' ! j) ''service_date'' = Some (TextV ''2021-05-01'') \<and>
      rprops (rels st' ! j) ''billing_amount'' = None"
    by (auto simp del: fun_upd_apply)
  show ?thesis
    apply (intro conjI)
        apply (rule v)
       apply (rule p)
      apply (rule one)
     apply (rule 1)
    apply (rule 2)
    done
qed

section \<open>Skeletons\<close>

lemma settable_cases:
  "settable L = (if L = Visit then fst ` set (nq_set visit_nodes) else {})"
  by (cases L)
    (simp_all add: settable_def node_queries_def hospital_nodes_def payer_nodes_def
      physician_nodes_def patient_nodes_def visit_nodes_def review_nodes_def)

lemma id_not_settable [simp]: "''id'' \<notin> settable L"
  by (simp add: settable_cases visit_nodes_def)

lemma wf_node_queries_all: "list_all wf_nq node_queries"
  by (simp add: node_queries_def wf_nq_def settable_cases hospital_nodes_def payer_nodes_def
      physician_nodes_def patient_nodes_def visit_nodes_def review_nodes_def)

lemma wf_node_queries: "q \<in> set node_queries \<Longrightarrow> wf_nq q"
  using wf_node_queries_all by (simp add: list_all_iff)

lemma wf_rel_queries_all: "list_all wf_rq rel_queries"
  by (simp add: rel_queries_def wf_rq_def has_rels_def at_rels_def treats_rels_def
      covered_by_rels_def writes_rels_def)

lemma wf_rel_queries: "q \<in> set rel_queries \<Longrightarrow> wf_rq q"
  using wf_rel_queries_all by (simp add: list_all_iff)

lemma wf_pipeline: "x \<in> set pipeline \<Longrightarrow> wf_stage x"
  by (auto simp: pipeline_def dest: wf_node_queries wf_rel_queries)

lemma skel_eq_iff:
  "skel s = skel t \<longleftrightarrow>
     constraints s = constraints t \<and> map skel_node (nodes s) = map skel_node (nodes t) \<and>
     map skel_rel (rels s) = map skel_rel (rels t)"
  by (simp add: skel_def)

lemma skel_length:
  assumes "skel s = skel t"
  shows "length (nodes s) = length (nodes t)" and "length (rels s) = length (rels t)"
proof -
  from assms have "map skel_node (nodes s) = map skel_node (nodes t)"
    and "map skel_rel (rels s) = map skel_rel (rels t)"
    by (simp_all add: skel_eq_iff)
  then show "length (nodes s) = length (nodes t)" and "length (rels s) = length (rels t)"
    by (auto dest: map_eq_imp_length_eq)
qed

lemma map_eq_nth:
  assumes "map f xs = map g ys" "i < length xs"
  shows "f (xs ! i) = g (ys ! i)"
proof -
  from assms(1) have len: "length xs = length ys" by (rule map_eq_imp_length_eq)
  have "f (xs ! i) = map f xs ! i" using assms(2) by simp
  also have "\<dots> = map g ys ! i" using assms(1) by simp
  also have "\<dots> = g (ys ! i)" using assms(2) len by simp
  finally show ?thesis .
qed

lemma skel_node_nth:
  assumes "skel s = skel t" "i < length (nodes s)"
  shows "skel_node (nodes s ! i) = skel_node (nodes t ! i)"
proof (rule map_eq_nth)
  show "map skel_node (nodes s) = map skel_node (nodes t)" using assms(1) by (simp add: skel_eq_iff)
qed (rule assms(2))

lemma skel_rel_nth:
  assumes "skel s = skel t" "j < length (rels s)"
  shows "skel_rel (rels s ! j) = skel_rel (rels t ! j)"
proof (rule map_eq_nth)
  show "map skel_rel (rels s) = map skel_rel (rels t)" using assms(1) by (simp add: skel_eq_iff)
qed (rule assms(2))

lemma skel_node_label: "skel_node n = skel_node m \<Longrightarrow> nlabel n = nlabel m"
  by (simp add: skel_node_def)

lemma skel_node_prop:
  assumes "skel_node n = skel_node m" "k \<notin> settable (nlabel n)"
  shows "nprops n k = nprops m k"
proof -
  from assms(1) have l: "nlabel n = nlabel m"
    by (simp add: skel_node_def)
  from assms(1) have f: "(\<lambda>k. if k \<in> settable (nlabel n) then None else nprops n k) =
            (\<lambda>k. if k \<in> settable (nlabel m) then None else nprops m k)"
    unfolding skel_node_def by (rule Pair_inject)
  from fun_cong[OF f, of k] assms(2) l show ?thesis by simp
qed

lemma node_matches_skel:
  assumes "skel_node n = skel_node m" "fst ` set pat \<inter> settable L = {}"
  shows "node_matches n L pat = node_matches m L pat"
proof (cases "nlabel n = L")
  case True
  have "nprops n k = nprops m k" if "(k, v) \<in> set pat" for k v
  proof -
    from that assms(2) have "k \<notin> settable L" by force
    with True skel_node_prop[OF assms(1)] show ?thesis by simp
  qed
  then have "list_all (\<lambda>(k, v). nprops n k = Some v) pat = list_all (\<lambda>(k, v). nprops m k = Some v) pat"
    by (auto simp: list_all_iff)
  with True skel_node_label[OF assms(1)] show ?thesis by (simp add: node_matches_def)
next
  case False
  with skel_node_label[OF assms(1)] show ?thesis by (simp add: node_matches_def)
qed

lemma match_nodes_skel:
  assumes "skel s = skel t" "fst ` set pat \<inter> settable L = {}"
  shows "match_nodes s L pat = match_nodes t L pat"
proof -
  have "node_matches (nodes s ! i) L pat = node_matches (nodes t ! i) L pat"
    if "i < length (nodes s)" for i
    using node_matches_skel[OF skel_node_nth[OF assms(1) that] assms(2)] .
  then show ?thesis
    unfolding match_nodes_def skel_length(1)[OF assms(1), symmetric]
    by (intro filter_cong) auto
qed

lemma match_nodes_bound: "i \<in> set (match_nodes s L pat) \<Longrightarrow> i < length (nodes s)"
  by (auto simp: match_nodes_def)

lemma match_nodes_label: "i \<in> set (match_nodes s L pat) \<Longrightarrow> nlabel (nodes s ! i) = L"
  by (auto simp: match_nodes_def node_matches_def)

lemma rel_matches_skel: "rel_matches e t a b \<longleftrightarrow> skel_rel e = (t, a, b)"
  by (auto simp: rel_matches_def skel_rel_def)

lemma match_rels_skel:
  assumes "skel s = skel t"
  shows "match_rels s ty a b = match_rels t ty a b"
proof -
  have "rel_matches (rels s ! j) ty a b = rel_matches (rels t ! j) ty a b"
    if "j < length (rels s)" for j
    using skel_rel_nth[OF assms that] by (simp add: rel_matches_skel)
  then show ?thesis
    unfolding match_rels_def skel_length(2)[OF assms, symmetric]
    by (intro filter_cong) auto
qed

lemma id_view_skel:
  assumes "skel_node n = skel_node m"
  shows "(if nlabel n = L then nprops n (constraint_property L) else None) =
         (if nlabel m = L then nprops m (constraint_property L) else None)"
  using skel_node_label[OF assms] skel_node_prop[OF assms, of "''id''"]
  by (simp add: constraint_property_def)

lemma map_filter_through:
  "(\<And>x. f x = g (h x)) \<Longrightarrow> List.map_filter f xs = List.map_filter g (map h xs)"
  by (induction xs) (auto simp: map_filter_simps split: option.splits)

lemma ids_of_skel:
  fixes s t :: "'f store"
  assumes "skel s = skel t"
  shows "ids_of s L = ids_of t L"
proof -
  let ?g = "\<lambda>p. if fst p = L then snd p (constraint_property L) else None"
  have "ids_of u L = List.map_filter ?g (map skel_node (nodes u))" for u :: "'f store"
    unfolding ids_of_def
    by (rule map_filter_through) (simp add: skel_node_def constraint_property_def)
  note this[of s] this[of t]
  with assms show ?thesis by (simp add: skel_eq_iff)
qed

lemma id_taken_skel:
  fixes s t :: "'f store"
  assumes "skel s = skel t"
  shows "id_taken s L v = id_taken t L v"
proof -
  let ?g = "\<lambda>p. fst p = L \<and> snd p ''id'' = Some v"
  have "id_taken u L v = list_ex ?g (map skel_node (nodes u))" for u :: "'f store"
    by (simp add: id_taken_def list_ex_iff skel_node_def)
  note this[of s] this[of t]
  with assms show ?thesis by (simp add: skel_eq_iff)
qed

section \<open>Frames of the clauses\<close>

lemma skel_set_node_prop:
  assumes "i < length (nodes s) \<Longrightarrow> k \<in> settable (nlabel (nodes s ! i))"
  shows "skel (set_node_prop k v i s) = skel s"
proof (cases "i < length (nodes s)")
  case True
  let ?n = "nodes s ! i"
  from True assms have "skel_node (?n\<lparr>nprops := (nprops ?n)(k := v)\<rparr>) = skel_node ?n"
    by (auto simp: skel_node_def)
  then have "map skel_node ((nodes s)[i := ?n\<lparr>nprops := (nprops ?n)(k := v)\<rparr>]) =
             (map skel_node (nodes s))[i := map skel_node (nodes s) ! i]"
    using True by (simp add: map_update)
  then show ?thesis by (simp add: skel_def set_node_prop_def)
next
  case False
  then show ?thesis by (simp add: skel_def set_node_prop_def not_less list_update_beyond)
qed

lemma skel_label:
  assumes "skel s = skel t" "i < length (nodes s)"
  shows "nlabel (nodes s ! i) = nlabel (nodes t ! i)"
  using skel_node_label[OF skel_node_nth[OF assms]] .

lemma skel_set_node_props:
  assumes "i < length (nodes s) \<Longrightarrow> fst ` set kvs \<subseteq> settable (nlabel (nodes s ! i))"
  shows "skel (set_node_props kvs i s) = skel s"
  using assms
proof (induction kvs arbitrary: s)
  case Nil
  then show ?case by (simp add: set_node_props_def)
next
  case (Cons kv kvs)
  obtain k v where kv: "kv = (k, v)" by (cases kv)
  let ?s1 = "set_node_prop k v i s"
  have 1: "skel ?s1 = skel s"
    using Cons.prems kv by (intro skel_set_node_prop) auto
  have "skel (set_node_props kvs i ?s1) = skel ?s1"
  proof (rule Cons.IH)
    assume "i < length (nodes ?s1)"
    then have i: "i < length (nodes s)" using skel_length(1)[OF 1] by simp
    with skel_label[OF 1] have "nlabel (nodes ?s1 ! i) = nlabel (nodes s ! i)"
      using skel_length(1)[OF 1] by simp
    with Cons.prems i show "fst ` set kvs \<subseteq> settable (nlabel (nodes ?s1 ! i))" by auto
  qed
  with 1 kv show ?case by (simp add: set_node_props_def)
qed

lemma skel_fold_set_node_props:
  assumes "\<And>i. i \<in> set ms \<Longrightarrow> i < length (nodes s) \<Longrightarrow>
             fst ` set kvs \<subseteq> settable (nlabel (nodes s ! i))"
  shows "skel (fold (set_node_props kvs) ms s) = skel s"
  using assms
proof (induction ms arbitrary: s)
  case Nil
  then show ?case by simp
next
  case (Cons m ms)
  let ?s1 = "set_node_props kvs m s"
  have 1: "skel ?s1 = skel s" using Cons.prems by (intro skel_set_node_props) auto
  have "skel (fold (set_node_props kvs) ms ?s1) = skel ?s1"
  proof (rule Cons.IH)
    fix i assume i: "i \<in> set ms" "i < length (nodes ?s1)"
    then have il: "i < length (nodes s)" using skel_length(1)[OF 1] by simp
    from skel_label[OF 1 i(2)] have "nlabel (nodes ?s1 ! i) = nlabel (nodes s ! i)" .
    with Cons.prems[of i] i(1) il show "fst ` set kvs \<subseteq> settable (nlabel (nodes ?s1 ! i))"
      by simp
  qed
  with 1 show ?case by simp
qed

lemma merge_node_cases:
  assumes "merge_node L pat s = Inr (s1, ms)"
  shows "(ms = match_nodes s L pat \<and> ms \<noteq> [] \<and> s1 = s) \<or>
         (match_nodes s L pat = [] \<and> create_node L pat s = Inr s1 \<and> ms = [length (nodes s)])"
  using assms by (auto simp: merge_node_def split: list.splits sum.splits)

lemma create_node_cases:
  assumes "create_node L pat s = Inr s1"
  shows "s1 = s\<lparr>nodes := nodes s @ [\<lparr>nlabel = L, nprops = map_of pat\<rparr>]\<rparr>"
    and "L \<in> constraints s \<Longrightarrow> map_of pat ''id'' = Some v \<Longrightarrow> \<not> id_taken s L v"
  using assms by (auto simp: create_node_def constraint_property_def split: if_splits)

lemma merge_node_labels:
  assumes "merge_node L pat s = Inr (s1, ms)" "i \<in> set ms"
  shows "i < length (nodes s1) \<and> nlabel (nodes s1 ! i) = L"
  using merge_node_cases[OF assms(1)]
proof
  assume "ms = match_nodes s L pat \<and> ms \<noteq> [] \<and> s1 = s"
  with assms(2) match_nodes_bound match_nodes_label show ?thesis by blast
next
  assume "match_nodes s L pat = [] \<and> create_node L pat s = Inr s1 \<and> ms = [length (nodes s)]"
  with assms(2) create_node_cases(1)[of L pat s s1] show ?thesis by (auto simp: nth_append)
qed

text \<open>A node row changes the skeleton by what its \<^verbatim>\<open>MERGE\<close> does; the \<^verbatim>\<open>SET\<close> is invisible.\<close>

lemma node_row_skel:
  assumes "wf_nq q" "node_row fns q r s = Inr s'"
  shows "\<exists>pat s1 ms. resolve (eval_props (eval_nexpr fns r) (nq_merge q)) = Inr pat \<and>
           merge_node (nq_label q) pat s = Inr (s1, ms) \<and> skel s' = skel s1"
proof -
  from assms(2) obtain pat s1 ms where
    p: "resolve (eval_props (eval_nexpr fns r) (nq_merge q)) = Inr pat"
    and m: "merge_node (nq_label q) pat s = Inr (s1, ms)"
    and s': "s' = fold (set_node_props (eval_props (eval_nexpr fns r) (nq_set q))) ms s1"
    by (auto simp: node_row_def split: sum.splits)
  have keys: "fst ` set (eval_props (eval_nexpr fns r) (nq_set q)) \<subseteq> settable (nq_label q)"
    using assms(1) by (force simp: wf_nq_def eval_props_def)
  have "skel s' = skel s1"
    unfolding s'
  proof (rule skel_fold_set_node_props)
    fix i assume "i \<in> set ms" "i < length (nodes s1)"
    with merge_node_labels[OF m] keys
    show "fst ` set (eval_props (eval_nexpr fns r) (nq_set q)) \<subseteq> settable (nlabel (nodes s1 ! i))"
      by simp
  qed
  with p m show ?thesis by blast
qed

section \<open>Identifier uniqueness\<close>

lemma id_taken_ids_of: "id_taken s L v \<longleftrightarrow> v \<in> set (ids_of s L)"
  by (force simp: id_taken_def ids_of_def list_ex_iff List.map_filter_def constraint_property_def
      image_iff split: if_splits)

lemma ids_of_created:
  "ids_of (s\<lparr>nodes := nodes s @ [\<lparr>nlabel = L, nprops = m\<rparr>]\<rparr>) L' =
     ids_of s L' @ (if L' = L then (case m ''id'' of None \<Rightarrow> [] | Some v \<Rightarrow> [v]) else [])"
  by (auto simp: ids_of_def List.map_filter_def constraint_property_def)

lemma merge_node_unique:
  assumes "merge_node L pat s = Inr (s1, ms)" "L \<in> constraints s" "unique_ids s"
  shows "unique_ids s1 \<and> constraints s1 = constraints s"
  using merge_node_cases[OF assms(1)]
proof
  assume "ms = match_nodes s L pat \<and> ms \<noteq> [] \<and> s1 = s"
  with assms show ?thesis by simp
next
  assume c: "match_nodes s L pat = [] \<and> create_node L pat s = Inr s1 \<and> ms = [length (nodes s)]"
  then have s1: "s1 = s\<lparr>nodes := nodes s @ [\<lparr>nlabel = L, nprops = map_of pat\<rparr>]\<rparr>"
    using create_node_cases(1) by blast
  have d: "distinct (ids_of s1 L')" for L'
  proof (cases "L' = L \<and> map_of pat ''id'' \<noteq> None")
    case True
    then obtain v where v: "map_of pat ''id'' = Some v" by auto
    with c assms(2) create_node_cases(2) have "\<not> id_taken s L v" by blast
    with v True assms(3) show ?thesis
      unfolding s1 ids_of_created by (simp add: id_taken_ids_of unique_ids_def)
  next
    case False
    from assms(3) have "distinct (ids_of s L')" by (simp add: unique_ids_def)
    with False show ?thesis
      unfolding s1 ids_of_created by (cases "L' = L") simp_all
  qed
  have "unique_ids s1" by (simp add: unique_ids_def d)
  moreover have "constraints s1 = constraints s" by (simp add: s1)
  ultimately show ?thesis by simp
qed

lemma node_row_unique:
  assumes "wf_nq q" "node_row fns q r s = Inr s'" "nq_label q \<in> constraints s" "unique_ids s"
  shows "unique_ids s' \<and> nq_label q \<in> constraints s'"
proof -
  from node_row_skel[OF assms(1,2)] obtain pat s1 ms where
    m: "merge_node (nq_label q) pat s = Inr (s1, ms)" and sk: "skel s' = skel s1" by blast
  from merge_node_unique[OF m assms(3,4)] have "unique_ids s1" "constraints s1 = constraints s"
    by simp_all
  moreover from sk have "constraints s' = constraints s1" by (simp add: skel_eq_iff)
  ultimately show ?thesis using assms(3) ids_of_skel[OF sk] by (simp add: unique_ids_def)
qed

lemma for_rows_invariant:
  assumes "for_rows f rows s = Inr s'" "P s" "\<And>r u u'. P u \<Longrightarrow> f r u = Inr u' \<Longrightarrow> P u'"
  shows "P s'"
  using assms(1,2)
proof (induction rows arbitrary: s)
  case Nil
  then show ?case by simp
next
  case (Cons r rows)
  from Cons.prems(1) obtain s1 where 1: "f r s = Inr s1" and 2: "for_rows f rows s1 = Inr s'"
    by (auto split: sum.splits)
  from Cons.IH[OF 2 assms(3)[OF Cons.prems(2) 1]] show ?case .
qed

lemma load_nodes_unique:
  assumes "wf_nq q" "load_nodes fns src q s = Inr s'" "nq_label q \<in> constraints s" "unique_ids s"
  shows "unique_ids s' \<and> constraints s \<subseteq> constraints s'"
proof -
  let ?P = "\<lambda>u. unique_ids u \<and> nq_label q \<in> constraints u \<and> constraints s \<subseteq> constraints u"
  have step: "?P u'" if "?P u" "node_row fns q r u = Inr u'" for r u u'
  proof -
    from node_row_unique[OF assms(1) that(2)] that(1)
    have a: "unique_ids u'" "nq_label q \<in> constraints u'" by simp_all
    from node_row_skel[OF assms(1) that(2)] obtain pat s1 ms where
      m: "merge_node (nq_label q) pat u = Inr (s1, ms)" and sk: "skel u' = skel s1" by blast
    from merge_node_unique[OF m] that(1) have "constraints s1 = constraints u" by simp
    with sk have "constraints u' = constraints u" by (simp add: skel_eq_iff)
    with a that(1) show ?thesis by simp
  qed
  from assms(2) have "for_rows (node_row fns q) (src (nq_label q)) s = Inr s'"
    by (simp add: load_nodes_def)
  from for_rows_invariant[where P = ?P, OF this _ step] assms(3,4) show ?thesis by simp
qed

lemma set_rel_prop_skel [simp]: "skel (set_rel_prop k v j s) = skel s"
proof (cases "j < length (rels s)")
  case True
  let ?e = "rels s ! j"
  have "skel_rel (?e\<lparr>rprops := (rprops ?e)(k := v)\<rparr>) = skel_rel ?e"
    by (simp add: skel_rel_def)
  then have "map skel_rel ((rels s)[j := ?e\<lparr>rprops := (rprops ?e)(k := v)\<rparr>]) =
             (map skel_rel (rels s))[j := map skel_rel (rels s) ! j]"
    using True by (simp add: map_update)
  then show ?thesis by (simp add: skel_def set_rel_prop_def)
next
  case False
  then show ?thesis by (simp add: skel_def set_rel_prop_def not_less list_update_beyond)
qed

lemma set_rel_props_frame [simp]:
  "nodes (set_rel_props kvs j s) = nodes s"
  "constraints (set_rel_props kvs j s) = constraints s"
  "skel (set_rel_props kvs j s) = skel s"
  "length (rels (set_rel_props kvs j s)) = length (rels s)"
  by (induction kvs arbitrary: s) (auto simp: set_rel_props_def)

lemma fold_set_rel_props_frame [simp]:
  "nodes (fold (set_rel_props kvs) ms s) = nodes s"
  "constraints (fold (set_rel_props kvs) ms s) = constraints s"
  "skel (fold (set_rel_props kvs) ms s) = skel s"
  "length (rels (fold (set_rel_props kvs) ms s)) = length (rels s)"
  by (induction ms arbitrary: s) auto

lemma merge_rel_frame [simp]:
  "nodes (fst (merge_rel t a b s)) = nodes s"
  "constraints (fst (merge_rel t a b s)) = constraints s"
  by (auto simp: merge_rel_def split: list.splits)

lemma merge_set_rel_frame [simp]:
  "nodes (merge_set_rel fns q r ab s) = nodes s"
  "constraints (merge_set_rel fns q r ab s) = constraints s"
proof -
  obtain s1 ms where m: "merge_rel (rq_kind q) (fst ab) (snd ab) s = (s1, ms)"
    by (cases "merge_rel (rq_kind q) (fst ab) (snd ab) s")
  with merge_rel_frame[of "rq_kind q" "fst ab" "snd ab" s]
  have "nodes s1 = nodes s" "constraints s1 = constraints s" by simp_all
  then show "nodes (merge_set_rel fns q r ab s) = nodes s"
    and "constraints (merge_set_rel fns q r ab s) = constraints s"
    by (simp_all add: merge_set_rel_def m)
qed

lemma fold_merge_set_rel_frame [simp]:
  "nodes (fold (merge_set_rel fns q r) pairs s) = nodes s"
  "constraints (fold (merge_set_rel fns q r) pairs s) = constraints s"
  by (induction pairs arbitrary: s) auto

lemma rel_row_frame:
  assumes "rel_row fns q r s = Inr s'"
  shows "nodes s' = nodes s" and "constraints s' = constraints s"
  using assms by (auto simp: rel_row_def)

lemma load_rels_frame:
  assumes "load_rels fns src q s = Inr s'"
  shows "nodes s' = nodes s \<and> constraints s' = constraints s"
proof -
  let ?P = "\<lambda>u. nodes u = nodes s \<and> constraints u = constraints s"
  from assms have "for_rows (rel_row fns q) (src (rq_file q)) s = Inr s'"
    by (simp add: load_rels_def)
  from for_rows_invariant[where P = ?P, OF this] rel_row_frame show ?thesis by metis
qed

lemma fold_merge_rel_frame [simp]:
  "nodes (fold (\<lambda>(p, h) s. fst (merge_rel t p h s)) phs s) = nodes s"
  "constraints (fold (\<lambda>(p, h) s. fst (merge_rel t p h s)) phs s) = constraints s"
  by (induction phs arbitrary: s) auto

lemma infer_employs_frame:
  assumes "infer_employs s = Inr s'"
  shows "nodes s' = nodes s \<and> constraints s' = constraints s"
  using assms by (auto simp: infer_employs_def split: sum.splits)

lemma unique_ids_nodes: "nodes s' = nodes s \<Longrightarrow> unique_ids s' = unique_ids s"
  by (simp add: unique_ids_def ids_of_def)

lemma set_uniqueness_constraints_frame:
  assumes "set_uniqueness_constraints L s = Inr s'"
  shows "nodes s' = nodes s \<and> constraints s' = insert L (constraints s)"
  using assms by (auto simp: set_uniqueness_constraints_def split: if_splits)

lemma exec_stage_unique:
  assumes "exec_stage fns src x s = Inr s'" "wf_stage x" "guarded C (x # xs)"
    "C \<subseteq> constraints s" "unique_ids s"
  shows "unique_ids s' \<and> (\<exists>C'. guarded C' xs \<and> C' \<subseteq> constraints s')"
proof (cases x)
  case (SetConstraint L)
  with assms(1) set_uniqueness_constraints_frame[of L s s']
  have "nodes s' = nodes s" "constraints s' = insert L (constraints s)" by simp_all
  with assms(3,4,5) SetConstraint unique_ids_nodes[of s' s] show ?thesis
    by (auto intro!: exI[of _ "insert L C"])
next
  case (LoadNodes q)
  with assms load_nodes_unique[of q fns src s s'] show ?thesis by auto
next
  case (LoadRels q)
  with assms(1) load_rels_frame[of fns src q s s']
  have "nodes s' = nodes s" "constraints s' = constraints s" by simp_all
  with assms(3,4,5) LoadRels unique_ids_nodes[of s' s] show ?thesis by auto
next
  case InferEmploys
  with assms(1) infer_employs_frame[of s s']
  have "nodes s' = nodes s" "constraints s' = constraints s" by simp_all
  with assms(3,4,5) InferEmploys unique_ids_nodes[of s' s] show ?thesis by auto
qed

lemma run_stages_unique:
  assumes "run_stages fns src xs s = (res, s', issued)" "\<forall>x\<in>set xs. wf_stage x"
    "guarded C xs" "C \<subseteq> constraints s" "unique_ids s"
  shows "unique_ids s'"
  using assms
proof (induction xs arbitrary: s C res issued)
  case Nil
  then show ?case by simp
next
  case (Cons x xs)
  from Cons.prems(1) show ?case
  proof (cases rule: run_stages_Cons_cases)
    case (raised e)
    with Cons.prems show ?thesis by simp
  next
    case (continued s1 i2)
    have "\<exists>C'. unique_ids s1 \<and> guarded C' xs \<and> C' \<subseteq> constraints s1"
      using continued(1)
    proof
      assume "exec_stage fns src x s = Inr s1"
      from exec_stage_unique[OF this _ Cons.prems(3,4,5)] Cons.prems(2) show ?thesis by auto
    next
      assume "(\<exists>e. exec_stage fns src x s = Inl e) \<and> result_dropped x \<and> s1 = s"
      then have d: "result_dropped x" and s1: "s1 = s" by simp_all
      from d Cons.prems(3) have "guarded C xs" by (cases x) simp_all
      with s1 Cons.prems(4,5) show ?thesis by blast
    qed
    then obtain C' where "unique_ids s1" "guarded C' xs" "C' \<subseteq> constraints s1" by blast
    with Cons.IH[OF continued(2)] Cons.prems(2) show ?thesis by simp
  qed
qed

lemma guarded_pipeline: "guarded {} pipeline"
  by (simp add: pipeline_def NODES_def node_queries_def rel_queries_def hospital_nodes_def
      payer_nodes_def physician_nodes_def patient_nodes_def visit_nodes_def review_nodes_def)

lemma load_attempt_unique:
  assumes "load_attempt fns src up s = (res, s', issued)" "unique_ids s"
  shows "unique_ids s'"
proof (cases up)
  case True
  with assms(1) have "run_stages fns src pipeline s = (res, s', issued)"
    by (simp add: load_attempt_def)
  from run_stages_unique[OF this _ guarded_pipeline _ assms(2)] wf_pipeline show ?thesis by simp
next
  case False
  with assms show ?thesis by (simp add: load_attempt_def)
qed

lemma retry_invariant:
  assumes "retry n d b j f k s = (res, s', tr)" "P s"
    "\<And>k u r u'. P u \<Longrightarrow> f k u = (r, u') \<Longrightarrow> P u'"
  shows "P s'"
  using assms(1,2)
proof (induction n arbitrary: d k s res tr)
  case 0
  then show ?case by simp
next
  case (Suc n)
  obtain r1 s1 where f: "f k s = (r1, s1)" by (cases "f k s")
  from assms(3)[OF Suc.prems(2) f] have p1: "P s1" .
  show ?case
  proof (cases "r1 = None \<or> n = 0")
    case True
    with Suc.prems(1) f have "s' = s1" by (auto split: option.splits)
    with p1 show ?thesis by simp
  next
    case False
    then obtain e where e: "r1 = Some e" "n \<noteq> 0" by auto
    from Suc.prems(1) f e obtain r2 t2
      where r: "retry n (d * b + j) b j f (Suc k) s1 = (r2, s', t2)"
      by (auto split: prod.splits)
    from Suc.IH[OF r p1] show ?thesis .
  qed
qed

lemma job_unique:
  assumes "unique_ids s"
  shows "unique_ids (fst (snd (load_hospital_graph_from_csv fns src up s)))"
proof -
  obtain res s' tr where job: "load_hospital_graph_from_csv fns src up s = (res, s', tr)"
    by (cases "load_hospital_graph_from_csv fns src up s")
  have "unique_ids s'"
  proof (rule retry_invariant[where P = unique_ids, OF job[unfolded load_hospital_graph_from_csv_def] assms])
    fix k u r u'
    assume "unique_ids u"
      and "(case load_attempt fns src (up k) u of (res, s', issued) \<Rightarrow> (res, s')) = (r, u')"
    then show "unique_ids u'"
      using load_attempt_unique[of fns src "up k" u] by (auto split: prod.splits)
  qed
  with job show ?thesis by simp
qed

lemma unique_ids_empty: "unique_ids empty_store"
  by (simp add: unique_ids_def empty_store_def ids_of_def map_filter_simps)

lemma after_runs_unique:
  "unique_ids s \<Longrightarrow> unique_ids (after_runs fns history s)"
  unfolding after_runs_def
  by (induction history arbitrary: s) (auto simp: job_unique)

lemma distinct_map_filter_count:
  assumes "distinct (List.map_filter f xs)"
  shows "length (filter (\<lambda>x. f x = Some v) xs) \<le> 1"
  using assms
proof (induction xs)
  case Nil
  then show ?case by simp
next
  case (Cons x xs)
  show ?case
  proof (cases "f x = Some v")
    case True
    with Cons.prems have "v \<notin> set (List.map_filter f xs)" "distinct (List.map_filter f xs)"
      by (simp_all add: map_filter_simps)
    then have "filter (\<lambda>x. f x = Some v) xs = []"
      by (force simp: List.map_filter_def filter_empty_conv image_iff)
    with True show ?thesis by simp
  next
    case False
    with Cons show ?thesis by (auto simp: map_filter_simps split: option.splits)
  qed
qed

text \<open>
  C3: after any history of jobs from the empty store, whatever the files and the
  reachability of the store in each, at most one node of a kind has a given identifier.
\<close>

theorem identifier_unique:
  "length (filter (\<lambda>n. nlabel n = K \<and> nprops n ''id'' = Some v)
             (nodes (after_runs fns history empty_store))) \<le> 1"
proof -
  let ?s = "after_runs fns history empty_store"
  have "unique_ids ?s" by (rule after_runs_unique[OF unique_ids_empty])
  then have "distinct (ids_of ?s K)" by (simp add: unique_ids_def)
  from distinct_map_filter_count[OF this[unfolded ids_of_def constraint_property_def], of v]
  have a: "length (filter (\<lambda>n. (if nlabel n = K then nprops n ''id'' else None) = Some v) (nodes ?s)) \<le> 1" .
  have e: "(\<lambda>n. (if nlabel n = K then nprops n ''id'' else None) = Some v) =
           (\<lambda>n. nlabel n = K \<and> nprops n ''id'' = Some v)"
    by auto
  from a[unfolded e] show ?thesis .
qed

theorem identifier_unique_witness:
  "length (filter (\<lambda>n. nlabel n = Hospital \<and> nprops n ''id'' = Some (IntV 9))
     (nodes (after_runs sample_fns
        [(sample_sources, \<lambda>k. True), (renamed_hospital, \<lambda>k. True), (sample_sources, \<lambda>k. k = 1)]
        empty_store))) = 1"
proof -
  have "1 \<le> length (filter (\<lambda>n. nlabel n = Hospital \<and> nprops n ''id'' = Some (IntV 9))
     (nodes (after_runs sample_fns
        [(sample_sources, \<lambda>k. True), (renamed_hospital, \<lambda>k. True), (sample_sources, \<lambda>k. k = 1)]
        empty_store)))"
    by code_simp
  with identifier_unique[of Hospital "IntV 9" sample_fns
      "[(sample_sources, \<lambda>k. True), (renamed_hospital, \<lambda>k. True), (sample_sources, \<lambda>k. k = 1)]"]
  show ?thesis by simp
qed

section \<open>Growth\<close>

lemma grows_refl [simp]: "grows s s"
  by (simp add: grows_def)

lemma grows_skel: "skel s = skel t \<Longrightarrow> grows s t"
  by (simp add: grows_def skel_eq_iff)

lemma grows_trans:
  assumes "grows s t" "grows t u"
  shows "grows s u"
proof -
  from assms obtain ns ns' es es' where
    "map skel_node (nodes t) = map skel_node (nodes s) @ ns"
    "map skel_node (nodes u) = map skel_node (nodes t) @ ns'"
    "map skel_rel (rels t) = map skel_rel (rels s) @ es"
    "map skel_rel (rels u) = map skel_rel (rels t) @ es'"
    unfolding grows_def by blast
  then have "map skel_node (nodes u) = map skel_node (nodes s) @ (ns @ ns')"
    and "map skel_rel (rels u) = map skel_rel (rels s) @ (es @ es')"
    by simp_all
  moreover from assms have "constraints s \<subseteq> constraints u" unfolding grows_def by blast
  ultimately show ?thesis unfolding grows_def by blast
qed

lemma grows_skel_left: "skel s = skel t \<Longrightarrow> grows t u \<Longrightarrow> grows s u"
  by (simp add: grows_def skel_eq_iff)

lemma grows_skel_right: "grows s t \<Longrightarrow> skel t = skel u \<Longrightarrow> grows s u"
  by (simp add: grows_def skel_eq_iff)

lemma grows_node:
  assumes "grows s s'" "i < length (nodes s)"
  shows "i < length (nodes s') \<and> skel_node (nodes s' ! i) = skel_node (nodes s ! i)"
proof -
  from assms(1) obtain ns where ns: "map skel_node (nodes s') = map skel_node (nodes s) @ ns"
    by (auto simp: grows_def)
  then have "length (map skel_node (nodes s')) = length (map skel_node (nodes s) @ ns)"
    by simp
  then have "length (nodes s') = length (nodes s) + length ns"
    by simp
  with assms(2) have i: "i < length (nodes s')" by simp
  then have "skel_node (nodes s' ! i) = map skel_node (nodes s') ! i" by simp
  also have "\<dots> = map skel_node (nodes s) ! i" using assms(2) by (simp add: ns nth_append)
  also have "\<dots> = skel_node (nodes s ! i)" using assms(2) by simp
  finally show ?thesis using i by simp
qed

lemma grows_rel:
  assumes "grows s s'" "j < length (rels s)"
  shows "j < length (rels s') \<and> skel_rel (rels s' ! j) = skel_rel (rels s ! j)"
proof -
  from assms(1) obtain es where es: "map skel_rel (rels s') = map skel_rel (rels s) @ es"
    by (auto simp: grows_def)
  then have "length (map skel_rel (rels s')) = length (map skel_rel (rels s) @ es)"
    by simp
  then have "length (rels s') = length (rels s) + length es"
    by simp
  with assms(2) have j: "j < length (rels s')" by simp
  then have "skel_rel (rels s' ! j) = map skel_rel (rels s') ! j" by simp
  also have "\<dots> = map skel_rel (rels s) ! j" using assms(2) by (simp add: es nth_append)
  also have "\<dots> = skel_rel (rels s ! j)" using assms(2) by simp
  finally show ?thesis using j by simp
qed

lemma match_nodes_grows:
  assumes "grows s s'" "fst ` set pat \<inter> settable L = {}" "i \<in> set (match_nodes s L pat)"
  shows "i \<in> set (match_nodes s' L pat)"
proof -
  from assms(3) have i: "i < length (nodes s)" and m: "node_matches (nodes s ! i) L pat"
    by (auto simp: match_nodes_def)
  from grows_node[OF assms(1) i] have i': "i < length (nodes s')"
    and sk: "skel_node (nodes s' ! i) = skel_node (nodes s ! i)" by simp_all
  from node_matches_skel[OF sk assms(2)] m have "node_matches (nodes s' ! i) L pat" by simp
  with i' show ?thesis by (simp add: match_nodes_def)
qed

lemma match_rels_grows:
  assumes "grows s s'" "j \<in> set (match_rels s t a b)"
  shows "j \<in> set (match_rels s' t a b)"
proof -
  from assms(2) have j: "j < length (rels s)" and m: "rel_matches (rels s ! j) t a b"
    by (auto simp: match_rels_def)
  from grows_rel[OF assms(1) j] have j': "j < length (rels s')"
    and sk: "skel_rel (rels s' ! j) = skel_rel (rels s ! j)" by simp_all
  from m sk have "rel_matches (rels s' ! j) t a b" by (simp add: rel_matches_skel)
  with j' show ?thesis by (simp add: match_rels_def)
qed

lemma nonempty_conv: "xs \<noteq> [] \<longleftrightarrow> (\<exists>x. x \<in> set xs)"
  by (cases xs) auto

lemma resolve_keys: "resolve kvs = Inr pat \<Longrightarrow> map fst pat = map fst kvs"
proof (induction kvs arbitrary: pat rule: resolve.induct)
  case (3 k v kvs)
  then show ?case by (auto split: sum.splits)
qed auto

lemma eval_props_keys [simp]: "map fst (eval_props ev kes) = map fst kes"
  by (simp add: eval_props_def comp_def case_prod_unfold)

lemma merge_pattern_keys:
  assumes "resolve (eval_props ev (nq_merge q)) = Inr pat"
  shows "map fst pat = map fst (nq_merge q)"
  using resolve_keys[OF assms] by simp

lemma merge_pattern_unsettable:
  assumes "wf_nq q" "resolve (eval_props ev (nq_merge q)) = Inr pat"
  shows "fst ` set pat \<inter> settable (nq_label q) = {}"
proof -
  have "fst ` set pat = set (map fst pat)" by simp
  also have "\<dots> = fst ` set (nq_merge q)" unfolding merge_pattern_keys[OF assms(2)] by simp
  finally show ?thesis using assms(1) by (simp add: wf_nq_def)
qed

lemma row_absorbed_grows:
  assumes "wf_nq q" "grows s s'" "row_absorbed fns q s r"
  shows "row_absorbed fns q s' r"
proof -
  from assms(3) obtain pat where p: "resolve (eval_props (eval_nexpr fns r) (nq_merge q)) = Inr pat"
    and m: "match_nodes s (nq_label q) pat \<noteq> []"
    by (auto simp: row_absorbed_def split: sum.splits)
  note keys = merge_pattern_unsettable[OF assms(1) p]
  from m obtain i where "i \<in> set (match_nodes s (nq_label q) pat)" by (auto simp: nonempty_conv)
  from match_nodes_grows[OF assms(2) keys this] p show ?thesis
    by (auto simp: row_absorbed_def)
qed

section \<open>Node statements and the skeleton\<close>

lemma skel_created:
  "skel (s\<lparr>nodes := nodes s @ [n]\<rparr>) =
     (constraints s, map skel_node (nodes s) @ [skel_node n], map skel_rel (rels s))"
  by (simp add: skel_def)

lemma merge_node_grows:
  assumes "merge_node L pat s = Inr (s1, ms)"
  shows "grows s s1"
  using merge_node_cases[OF assms]
proof
  assume "ms = match_nodes s L pat \<and> ms \<noteq> [] \<and> s1 = s"
  then show ?thesis by simp
next
  assume "match_nodes s L pat = [] \<and> create_node L pat s = Inr s1 \<and> ms = [length (nodes s)]"
  then have "s1 = s\<lparr>nodes := nodes s @ [\<lparr>nlabel = L, nprops = map_of pat\<rparr>]\<rparr>"
    using create_node_cases(1) by blast
  then show ?thesis by (simp add: grows_def)
qed

lemma created_node_matches:
  assumes "distinct (map fst pat)"
  shows "node_matches \<lparr>nlabel = L, nprops = map_of pat\<rparr> L pat"
proof -
  have "map_of pat k = Some v" if "(k, v) \<in> set pat" for k v
    using assms that by (rule map_of_is_SomeI)
  then show ?thesis by (auto simp: node_matches_def list_all_iff)
qed

lemma merge_node_match:
  assumes "merge_node L pat s = Inr (s1, ms)" "distinct (map fst pat)"
  shows "match_nodes s1 L pat \<noteq> []"
  using merge_node_cases[OF assms(1)]
proof
  assume "ms = match_nodes s L pat \<and> ms \<noteq> [] \<and> s1 = s"
  then show ?thesis by auto
next
  assume c: "match_nodes s L pat = [] \<and> create_node L pat s = Inr s1 \<and> ms = [length (nodes s)]"
  then have s1: "s1 = s\<lparr>nodes := nodes s @ [\<lparr>nlabel = L, nprops = map_of pat\<rparr>]\<rparr>"
    using create_node_cases(1) by blast
  have "length (nodes s) \<in> set (match_nodes s1 L pat)"
    unfolding s1 match_nodes_def using created_node_matches[OF assms(2), of L] by simp
  then show ?thesis by auto
qed

lemma node_row_grows:
  assumes "wf_nq q" "node_row fns q r s = Inr s'"
  shows "grows s s'"
proof -
  from node_row_skel[OF assms] obtain pat s1 ms where
    m: "merge_node (nq_label q) pat s = Inr (s1, ms)" and sk: "skel s' = skel s1" by blast
  from grows_skel_right[OF merge_node_grows[OF m] sk[symmetric]] show ?thesis .
qed

lemma row_absorbed_skel:
  assumes "wf_nq q" "skel s = skel t"
  shows "row_absorbed fns q s r = row_absorbed fns q t r"
proof (cases "resolve (eval_props (eval_nexpr fns r) (nq_merge q))")
  case (Inl k)
  then show ?thesis by (simp add: row_absorbed_def)
next
  case (Inr pat)
  from match_nodes_skel[OF assms(2) merge_pattern_unsettable[OF assms(1) Inr]] Inr
  show ?thesis by (simp add: row_absorbed_def)
qed

lemma node_row_absorbs:
  assumes "wf_nq q" "node_row fns q r s = Inr s'"
  shows "row_absorbed fns q s' r"
proof -
  from node_row_skel[OF assms] obtain pat s1 ms where
    p: "resolve (eval_props (eval_nexpr fns r) (nq_merge q)) = Inr pat"
    and m: "merge_node (nq_label q) pat s = Inr (s1, ms)" and sk: "skel s' = skel s1" by blast
  from assms(1) merge_pattern_keys[OF p] have "distinct (map fst pat)" by (simp add: wf_nq_def)
  from merge_node_match[OF m this] p have "row_absorbed fns q s1 r" by (simp add: row_absorbed_def)
  with row_absorbed_skel[OF assms(1) sk] show ?thesis by simp
qed

lemma for_rows_rel:
  assumes "for_rows f rows s = Inr s'"
    and "\<And>u. G u u" and "\<And>u v w. G u v \<Longrightarrow> G v w \<Longrightarrow> G u w"
    and "\<And>r u u'. f r u = Inr u' \<Longrightarrow> G u u'"
  shows "G s s'"
  using assms(1)
proof (induction rows arbitrary: s)
  case Nil
  then show ?case by (simp add: assms(2))
next
  case (Cons r rows)
  from Cons.prems obtain s1 where 1: "f r s = Inr s1" and 2: "for_rows f rows s1 = Inr s'"
    by (auto split: sum.splits)
  from assms(3)[OF assms(4)[OF 1] Cons.IH[OF 2]] show ?case .
qed

lemma for_rows_absorbs:
  assumes "for_rows f rows s = Inr s'"
    and "\<And>u. G u u" and "\<And>u v w. G u v \<Longrightarrow> G v w \<Longrightarrow> G u w"
    and "\<And>r u u'. f r u = Inr u' \<Longrightarrow> G u u'"
    and "\<And>r u u'. f r u = Inr u' \<Longrightarrow> A u' r"
    and "\<And>r u u'. G u u' \<Longrightarrow> A u r \<Longrightarrow> A u' r"
  shows "list_all (A s') rows"
  using assms(1)
proof (induction rows arbitrary: s)
  case Nil
  then show ?case by simp
next
  case (Cons r rows)
  from Cons.prems obtain s1 where 1: "f r s = Inr s1" and 2: "for_rows f rows s1 = Inr s'"
    by (auto split: sum.splits)
  have "G s1 s'" by (rule for_rows_rel[where G = G, OF 2 assms(2,3,4)])
  from assms(6)[OF this assms(5)[OF 1]] have "A s' r" .
  with Cons.IH[OF 2] show ?case by simp
qed

lemma load_nodes_grows:
  assumes "wf_nq q" "load_nodes fns src q s = Inr s'"
  shows "grows s s'"
  using assms(2) unfolding load_nodes_def
proof (rule for_rows_rel[where G = grows])
  show "grows u w" if "grows u v" "grows v w" for u v w :: "'a store"
    using that by (rule grows_trans)
  show "grows u u'" if "node_row fns q r u = Inr u'" for r u u'
    using node_row_grows[OF assms(1) that] .
qed simp

lemma load_nodes_absorbs:
  assumes "wf_nq q" "load_nodes fns src q s = Inr s'"
  shows "list_all (row_absorbed fns q s') (src (nq_label q))"
  using assms(2) unfolding load_nodes_def
proof (rule for_rows_absorbs[where G = grows])
  show "grows u w" if "grows u v" "grows v w" for u v w :: "'a store"
    using that by (rule grows_trans)
  show "row_absorbed fns q u' r" if "node_row fns q r u = Inr u'" for r u u'
    using node_row_absorbs[OF assms(1) that] .
  show "grows u u'" if "node_row fns q r u = Inr u'" for r u u'
    using node_row_grows[OF assms(1) that] .
  show "row_absorbed fns q u' r" if "grows u u'" "row_absorbed fns q u r" for r u u'
    using row_absorbed_grows[OF assms(1) that] .
qed simp

lemma node_row_absorbed:
  assumes "wf_nq q" "row_absorbed fns q u r"
  shows "\<exists>u'. node_row fns q r u = Inr u' \<and> skel u' = skel u"
proof -
  from assms(2) obtain pat where p: "resolve (eval_props (eval_nexpr fns r) (nq_merge q)) = Inr pat"
    and m: "match_nodes u (nq_label q) pat \<noteq> []"
    by (auto simp: row_absorbed_def split: sum.splits)
  from m have mn: "merge_node (nq_label q) pat u = Inr (u, match_nodes u (nq_label q) pat)"
    by (auto simp: merge_node_def split: list.splits)
  with p obtain u' where u': "node_row fns q r u = Inr u'"
    by (simp add: node_row_def)
  from node_row_skel[OF assms(1) u'] mn p have "skel u' = skel u" by auto
  with u' show ?thesis by blast
qed

lemma for_rows_absorbed:
  assumes "list_all (A s) rows" "R u s"
    and "\<And>r v. R v s \<Longrightarrow> A s r \<Longrightarrow> \<exists>v'. f r v = Inr v' \<and> R v' s"
  shows "\<exists>u'. for_rows f rows u = Inr u' \<and> R u' s"
  using assms(1,2)
proof (induction rows arbitrary: u)
  case Nil
  then show ?case by simp
next
  case (Cons r rows)
  from Cons.prems have a: "A s r" and rest: "list_all (A s) rows" by simp_all
  from assms(3)[OF Cons.prems(2) a] obtain v' where v: "f r u = Inr v'" "R v' s" by blast
  from Cons.IH[OF rest v(2)] v(1) show ?case by simp
qed

lemma load_nodes_absorbed:
  fixes s u :: "'f store"
  assumes "wf_nq q" "list_all (row_absorbed fns q s) (src (nq_label q))" "skel u = skel s"
  shows "\<exists>u'. load_nodes fns src q u = Inr u' \<and> skel u' = skel s"
  unfolding load_nodes_def
proof (rule for_rows_absorbed[where A = "row_absorbed fns q" and R = "\<lambda>v s. skel v = skel s",
      OF assms(2,3)])
  fix r and v :: "'f store"
  assume v: "skel v = skel s" and a: "row_absorbed fns q s r"
  from row_absorbed_skel[OF assms(1) v] a have "row_absorbed fns q v r" by simp
  from node_row_absorbed[OF assms(1) this] v
  show "\<exists>v'. node_row fns q r v = Inr v' \<and> skel v' = skel s" by auto
qed

section \<open>Relationship statements and the skeleton\<close>

lemma merge_rel_cases:
  "(match_rels s t a b \<noteq> [] \<and> merge_rel t a b s = (s, match_rels s t a b)) \<or>
   (match_rels s t a b = [] \<and>
    merge_rel t a b s =
      (s\<lparr>rels := rels s @ [\<lparr>rkind = t, rsrc = a, rdst = b, rprops = Map.empty\<rparr>]\<rparr>,
       [length (rels s)]))"
  by (auto simp: merge_rel_def split: list.splits)

lemma merge_rel_grows: "grows s (fst (merge_rel t a b s))"
  using merge_rel_cases[of s t a b] by (auto simp: grows_def)

lemma merge_rel_match: "match_rels (fst (merge_rel t a b s)) t a b \<noteq> []"
  using merge_rel_cases[of s t a b] match_rels_created[of s t a b] by auto

lemma merge_rel_absorbed: "match_rels s t a b \<noteq> [] \<Longrightarrow> fst (merge_rel t a b s) = s"
  using merge_rel_cases[of s t a b] by auto

lemma merge_set_rel_skel:
  "skel (merge_set_rel fns q r ab s) = skel (fst (merge_rel (rq_kind q) (fst ab) (snd ab) s))"
  by (cases "merge_rel (rq_kind q) (fst ab) (snd ab) s") (simp add: merge_set_rel_def)

lemma merge_set_rel_grows: "grows s (merge_set_rel fns q r ab s)"
  using grows_skel_right[OF merge_rel_grows merge_set_rel_skel[symmetric]] .

lemma merge_set_rel_match:
  "match_rels (merge_set_rel fns q r ab s) (rq_kind q) (fst ab) (snd ab) \<noteq> []"
  using match_rels_skel[OF merge_set_rel_skel, of fns q r ab s "rq_kind q" "fst ab" "snd ab"]
    merge_rel_match[of "rq_kind q" "fst ab" "snd ab" s]
  by simp

lemma merge_set_rel_absorbed:
  "match_rels s (rq_kind q) (fst ab) (snd ab) \<noteq> [] \<Longrightarrow> skel (merge_set_rel fns q r ab s) = skel s"
  using merge_rel_absorbed[of s "rq_kind q" "fst ab" "snd ab"] by (simp add: merge_set_rel_skel)

lemma pairs_absorbed_grows:
  assumes "grows s s'" "pairs_absorbed s t pairs"
  shows "pairs_absorbed s' t pairs"
proof -
  have "match_rels s' t a b \<noteq> []" if "match_rels s t a b \<noteq> []" for a b
  proof -
    from that obtain j where "j \<in> set (match_rels s t a b)" by (auto simp: nonempty_conv)
    from match_rels_grows[OF assms(1) this] show ?thesis by auto
  qed
  with assms(2) show ?thesis by (auto simp: pairs_absorbed_def list_all_iff)
qed

lemma pairs_absorbed_skel:
  "skel s = skel u \<Longrightarrow> pairs_absorbed s t pairs = pairs_absorbed u t pairs"
  by (simp add: pairs_absorbed_def match_rels_skel[of s u])

lemma fold_pairs_grows:
  assumes "\<And>ab u. grows u (g ab u)"
  shows "grows s (fold g pairs s)"
proof (induction pairs arbitrary: s)
  case Nil
  show ?case by simp
next
  case (Cons ab pairs)
  from grows_trans[OF assms[of s ab] Cons[of "g ab s"]] show ?case by simp
qed

lemma fold_pairs_absorbs:
  assumes "\<And>ab u. grows u (g ab u)"
    and "\<And>ab u. match_rels (g ab u) t (fst ab) (snd ab) \<noteq> []"
  shows "pairs_absorbed (fold g pairs s) t pairs"
proof (induction pairs arbitrary: s)
  case Nil
  show ?case by (simp add: pairs_absorbed_def)
next
  case (Cons ab pairs)
  have "pairs_absorbed (g ab s) t [ab]"
    using assms(2)[of ab s] by (simp add: pairs_absorbed_def case_prod_unfold)
  from pairs_absorbed_grows[OF fold_pairs_grows[of g "g ab s" pairs, OF assms(1)] this]
  have "pairs_absorbed (fold g pairs (g ab s)) t [ab]" .
  with Cons[of "g ab s"] show ?case by (simp add: pairs_absorbed_def)
qed

lemma fold_pairs_absorbed:
  fixes s u :: "'f store"
  assumes "\<And>ab v. match_rels v t (fst ab) (snd ab) \<noteq> [] \<Longrightarrow> skel (g ab v) = skel v"
    and "pairs_absorbed s t pairs" "skel u = skel s"
  shows "skel (fold g pairs u) = skel s"
  using assms(2,3)
proof (induction pairs arbitrary: u)
  case Nil
  then show ?case by simp
next
  case (Cons ab pairs)
  from Cons.prems have "match_rels s t (fst ab) (snd ab) \<noteq> []" and rest: "pairs_absorbed s t pairs"
    by (simp_all add: pairs_absorbed_def case_prod_unfold)
  with match_rels_skel[OF Cons.prems(2)] have "match_rels u t (fst ab) (snd ab) \<noteq> []" by simp
  from assms(1)[OF this] Cons.prems(2) have "skel (g ab u) = skel s" by simp
  from Cons.IH[OF rest this] show ?case by simp
qed

lemma match_endpoint_nodes:
  "nodes s' = nodes s \<Longrightarrow> match_endpoint fns r s' ep = match_endpoint fns r s ep"
  by (simp add: match_endpoint_def match_nodes_def split: prod.splits option.splits)

lemma match_endpoint_skel:
  assumes "skel s = skel u" "fst (snd ep) \<notin> settable (fst ep)"
  shows "match_endpoint fns r s ep = match_endpoint fns r u ep"
proof -
  obtain L k e where ep: "ep = (L, k, e)" by (cases ep)
  with assms(2) have "fst ` set [(k, v)] \<inter> settable L = {}" for v :: nval by simp
  from match_nodes_skel[OF assms(1) this] show ?thesis
    by (simp add: match_endpoint_def ep split: option.splits)
qed

lemma rel_row_result:
  "rel_row fns q r s = Inr s' \<longleftrightarrow>
     s' = fold (merge_set_rel fns q r)
            (List.product (match_endpoint fns r s (rq_from q)) (match_endpoint fns r s (rq_to q))) s"
  by (auto simp: rel_row_def)

lemma rel_row_grows:
  assumes "rel_row fns q r s = Inr s'"
  shows "grows s s' \<and> nodes s' = nodes s"
proof -
  from assms have s': "s' = fold (merge_set_rel fns q r)
      (List.product (match_endpoint fns r s (rq_from q)) (match_endpoint fns r s (rq_to q))) s"
    by (simp add: rel_row_result)
  have "grows s s'" unfolding s' by (rule fold_pairs_grows) (rule merge_set_rel_grows)
  moreover have "nodes s' = nodes s" unfolding s' by simp
  ultimately show ?thesis by simp
qed

lemma rel_row_absorbs:
  assumes "rel_row fns q r s = Inr s'"
  shows "rel_row_absorbed fns q s' r"
proof -
  let ?pairs = "List.product (match_endpoint fns r s (rq_from q)) (match_endpoint fns r s (rq_to q))"
  from assms have s': "s' = fold (merge_set_rel fns q r) ?pairs s"
    by (simp add: rel_row_result)
  have "pairs_absorbed s' (rq_kind q) ?pairs"
    unfolding s' by (rule fold_pairs_absorbs) (rule merge_set_rel_grows, rule merge_set_rel_match)
  moreover have n: "nodes s' = nodes s" using rel_row_grows[OF assms] by simp
  ultimately show ?thesis
    by (simp add: rel_row_absorbed_def match_endpoint_nodes[OF n])
qed

lemma rel_row_absorbed_grows:
  assumes "grows s s' \<and> nodes s' = nodes s" "rel_row_absorbed fns q s r"
  shows "rel_row_absorbed fns q s' r"
proof -
  from assms(1) have g: "grows s s'" and n: "nodes s' = nodes s" by simp_all
  from assms(2) pairs_absorbed_grows[OF g] show ?thesis
    by (simp add: rel_row_absorbed_def match_endpoint_nodes[OF n])
qed

lemma grows_same_nodes_trans:
  assumes "grows u v \<and> nodes v = nodes u" "grows v w \<and> nodes w = nodes v"
  shows "grows u w \<and> nodes w = nodes u"
  using assms grows_trans[of u v w] by simp

lemma load_rels_grows:
  assumes "load_rels fns src q s = Inr s'"
  shows "grows s s' \<and> nodes s' = nodes s"
  using assms unfolding load_rels_def
proof (rule for_rows_rel[where G = "\<lambda>u v. grows u v \<and> nodes v = nodes u"])
  show "grows u w \<and> nodes w = nodes u"
    if "grows u v \<and> nodes v = nodes u" "grows v w \<and> nodes w = nodes v" for u v w :: "'a store"
    using that by (rule grows_same_nodes_trans)
  show "grows u u' \<and> nodes u' = nodes u" if "rel_row fns q r u = Inr u'" for r u u'
    using rel_row_grows[OF that] .
qed simp

lemma load_rels_absorbs:
  assumes "load_rels fns src q s = Inr s'"
  shows "list_all (rel_row_absorbed fns q s') (src (rq_file q))"
  using assms unfolding load_rels_def
proof (rule for_rows_absorbs[where G = "\<lambda>u v. grows u v \<and> nodes v = nodes u"])
  show "grows u w \<and> nodes w = nodes u"
    if "grows u v \<and> nodes v = nodes u" "grows v w \<and> nodes w = nodes v" for u v w :: "'a store"
    using that by (rule grows_same_nodes_trans)
  show "grows u u' \<and> nodes u' = nodes u" if "rel_row fns q r u = Inr u'" for r u u'
    using rel_row_grows[OF that] .
  show "rel_row_absorbed fns q u' r" if "rel_row fns q r u = Inr u'" for r u u'
    using rel_row_absorbs[OF that] .
  show "rel_row_absorbed fns q u' r"
    if "grows u u' \<and> nodes u' = nodes u" "rel_row_absorbed fns q u r" for r u u'
    using rel_row_absorbed_grows[OF that] .
qed simp

lemma rel_row_absorbed_skel:
  fixes s u :: "'f store"
  assumes "wf_rq q" "skel s = skel u"
  shows "rel_row_absorbed fns q s r = rel_row_absorbed fns q u r"
  using assms match_endpoint_skel[OF assms(2), of "rq_from q" fns r]
    match_endpoint_skel[OF assms(2), of "rq_to q" fns r] pairs_absorbed_skel[OF assms(2)]
  by (simp add: rel_row_absorbed_def wf_rq_def)

lemma rel_row_absorbed_run:
  fixes s u :: "'f store"
  assumes "wf_rq q" "rel_row_absorbed fns q s r" "skel u = skel s"
  shows "\<exists>u'. rel_row fns q r u = Inr u' \<and> skel u' = skel s"
proof -
  let ?pairs = "List.product (match_endpoint fns r u (rq_from q)) (match_endpoint fns r u (rq_to q))"
  from rel_row_absorbed_skel[OF assms(1) assms(3), of fns r] assms(2)
  have "rel_row_absorbed fns q u r" by simp
  then have "pairs_absorbed u (rq_kind q) ?pairs" by (simp add: rel_row_absorbed_def)
  with pairs_absorbed_skel[OF assms(3)] have pa: "pairs_absorbed s (rq_kind q) ?pairs" by simp
  have "skel (fold (merge_set_rel fns q r) ?pairs u) = skel s"
    by (rule fold_pairs_absorbed[OF _ pa assms(3)]) (rule merge_set_rel_absorbed)
  then show ?thesis by (simp add: rel_row_def)
qed

lemma load_rels_absorbed:
  fixes s u :: "'f store"
  assumes "wf_rq q" "list_all (rel_row_absorbed fns q s) (src (rq_file q))" "skel u = skel s"
  shows "\<exists>u'. load_rels fns src q u = Inr u' \<and> skel u' = skel s"
  unfolding load_rels_def
proof (rule for_rows_absorbed[where A = "rel_row_absorbed fns q" and R = "\<lambda>v s. skel v = skel s",
      OF assms(2,3)])
  fix r and v :: "'f store"
  assume v: "skel v = skel s" and a: "rel_row_absorbed fns q s r"
  from rel_row_absorbed_run[OF assms(1) a v]
  show "\<exists>v'. rel_row fns q r v = Inr v' \<and> skel v' = skel s" .
qed

section \<open>The inference and the skeleton\<close>

lemma where_employs_nodes:
  "nodes s' = nodes s \<Longrightarrow> where_employs s' phs = where_employs s phs"
  by (induction phs) (auto split: sum.splits)

lemma where_employs_skel:
  assumes "skel s = skel t" "\<forall>(p, h)\<in>set phs. p < length (nodes s) \<and> h < length (nodes s)"
  shows "where_employs s phs = where_employs t phs"
  using assms(2)
proof (induction phs)
  case Nil
  show ?case by simp
next
  case (Cons ph phs)
  obtain p h where ph: "ph = (p, h)" by (cases ph)
  with Cons.prems have p: "p < length (nodes s)" and h: "h < length (nodes s)" by auto
  have ids: "nprops (nodes s ! i) ''id'' = nprops (nodes t ! i) ''id''" if "i < length (nodes s)" for i
    using skel_node_prop[OF skel_node_nth[OF assms(1) that], of "''id''"] by simp
  from Cons have ih: "where_employs s phs = where_employs t phs" by auto
  from ids[OF p] ids[OF h] ph show ?case by (simp add: ih cong: sum.case_cong)
qed

lemma candidates_bound:
  "\<forall>(p, h)\<in>set (List.product (match_nodes s L []) (match_nodes s L' [])).
      p < length (nodes s) \<and> h < length (nodes s)"
  by (auto dest: match_nodes_bound)

lemma candidates_skel:
  assumes "skel s = skel t"
  shows "List.product (match_nodes s L []) (match_nodes s L' []) =
         List.product (match_nodes t L []) (match_nodes t L' [])"
  using match_nodes_skel[OF assms, of "[]"] by simp

lemma fold_merge_rel_grows:
  "grows s (fold (\<lambda>(p, h) s. fst (merge_rel t p h s)) phs s)"
  by (rule fold_pairs_grows) (simp add: case_prod_unfold merge_rel_grows)

lemma fold_merge_rel_absorbs:
  "pairs_absorbed (fold (\<lambda>(p, h) s. fst (merge_rel t p h s)) phs s) t phs"
  by (rule fold_pairs_absorbs) (simp_all add: case_prod_unfold merge_rel_grows merge_rel_match)

lemma fold_merge_rel_absorbed:
  fixes s u :: "'f store"
  assumes "pairs_absorbed s t phs" "skel u = skel s"
  shows "skel (fold (\<lambda>(p, h) s. fst (merge_rel t p h s)) phs u) = skel s"
  by (rule fold_pairs_absorbed[OF _ assms]) (simp add: case_prod_unfold merge_rel_absorbed)

lemma fold_merge_rel_id:
  assumes "pairs_absorbed s t phs"
  shows "fold (\<lambda>(p, h) s. fst (merge_rel t p h s)) phs s = s"
  using assms
proof (induction phs)
  case Nil
  show ?case by simp
next
  case (Cons ph phs)
  then show ?case
    by (cases ph) (simp add: pairs_absorbed_def merge_rel_absorbed)
qed

lemma infer_employs_grows:
  assumes "infer_employs s = Inr s'"
  shows "grows s s' \<and> nodes s' = nodes s"
  using assms fold_merge_rel_grows[of s EMPLOYS] infer_employs_frame[OF assms]
  by (auto simp: infer_employs_def split: sum.splits)

lemma infer_employs_absorbs:
  assumes "infer_employs s = Inr s'"
  shows "absorbed fns src InferEmploys s'"
proof -
  let ?c = "\<lambda>u. List.product (match_nodes u Physician []) (match_nodes u Hospital [])"
  from assms obtain phs where w: "where_employs s (?c s) = Inr phs"
    and s': "s' = fold (\<lambda>(p, h) s. fst (merge_rel EMPLOYS p h s)) phs s"
    by (auto simp: infer_employs_def split: sum.splits)
  have n: "nodes s' = nodes s" unfolding s' by simp
  then have "?c s' = ?c s" by (simp add: match_nodes_def)
  with where_employs_nodes[OF n] w have "where_employs s' (?c s') = Inr phs" by simp
  moreover have "pairs_absorbed s' EMPLOYS phs" unfolding s' by (rule fold_merge_rel_absorbs)
  ultimately show ?thesis by simp
qed

lemma infer_employs_absorbed:
  fixes s u :: "'f store"
  assumes "absorbed fns src InferEmploys s" "skel u = skel s"
  shows "\<exists>u'. infer_employs u = Inr u' \<and> skel u' = skel s"
proof -
  let ?c = "\<lambda>u. List.product (match_nodes u Physician []) (match_nodes u Hospital [])"
  from assms(1) obtain phs where w: "where_employs s (?c s) = Inr phs"
    and a: "pairs_absorbed s EMPLOYS phs"
    by (auto split: sum.splits)
  from where_employs_skel[OF assms(2) candidates_bound] candidates_skel[OF assms(2)] w
  have "where_employs u (?c u) = Inr phs" by simp
  with fold_merge_rel_absorbed[OF a assms(2)] show ?thesis
    by (simp add: infer_employs_def)
qed

lemma infer_employs_fixed:
  assumes "absorbed fns src InferEmploys s"
  shows "infer_employs s = Inr s"
  using assms by (auto simp: infer_employs_def fold_merge_rel_id split: sum.splits)

lemma infer_employs_fails_skel:
  fixes s t :: "'f store"
  assumes "infer_employs s = Inl e" "skel t = skel s"
  shows "infer_employs t = Inl e"
proof -
  let ?c = "\<lambda>u. List.product (match_nodes u Physician []) (match_nodes u Hospital [])"
  from assms(1) have "where_employs s (?c s) = Inl e"
    by (auto simp: infer_employs_def split: sum.splits)
  with where_employs_skel[OF assms(2) candidates_bound] candidates_skel[OF assms(2)]
  have "where_employs t (?c t) = Inl e" by simp
  then show ?thesis by (simp add: infer_employs_def)
qed

section \<open>Failure depends on the skeleton only\<close>

lemma merge_node_cong:
  fixes s t :: "'f store"
  assumes "skel s = skel t" "fst ` set pat \<inter> settable L = {}"
  shows "(\<forall>e. merge_node L pat s = Inl e \<longrightarrow> merge_node L pat t = Inl e) \<and>
         (\<forall>s1 ms. merge_node L pat s = Inr (s1, ms) \<longrightarrow>
            (\<exists>t1. merge_node L pat t = Inr (t1, ms) \<and> skel t1 = skel s1))"
proof (cases "match_nodes s L pat")
  case Nil
  with match_nodes_skel[OF assms] have mt: "match_nodes t L pat = []" by simp
  have c: "constraints s = constraints t" and len: "length (nodes s) = length (nodes t)"
    using assms(1) skel_length(1)[OF assms(1)] by (simp_all add: skel_eq_iff)
  show ?thesis
  proof (cases "L \<in> constraints s \<and>
      (case map_of pat (constraint_property L) of None \<Rightarrow> False | Some v \<Rightarrow> id_taken s L v)")
    case True
    with c id_taken_skel[OF assms(1)] have "L \<in> constraints t \<and>
      (case map_of pat (constraint_property L) of None \<Rightarrow> False | Some v \<Rightarrow> id_taken t L v)"
      by (auto split: option.splits)
    with True Nil mt show ?thesis by (simp add: merge_node_def create_node_def)
  next
    case False
    with c id_taken_skel[OF assms(1)] have "\<not> (L \<in> constraints t \<and>
      (case map_of pat (constraint_property L) of None \<Rightarrow> False | Some v \<Rightarrow> id_taken t L v))"
      by (auto split: option.splits)
    with False Nil mt len assms(1) show ?thesis
      by (simp add: merge_node_def create_node_def skel_created) (simp add: skel_def)
  qed
next
  case (Cons m ms)
  with match_nodes_skel[OF assms] have "match_nodes t L pat = m # ms" by simp
  with Cons assms(1) show ?thesis by (simp add: merge_node_def)
qed

lemma node_row_cong:
  fixes s t :: "'f store"
  assumes "wf_nq q" "skel s = skel t"
  shows "(\<forall>e. node_row fns q r s = Inl e \<longrightarrow> node_row fns q r t = Inl e) \<and>
         (\<forall>s'. node_row fns q r s = Inr s' \<longrightarrow>
            (\<exists>t'. node_row fns q r t = Inr t' \<and> skel t' = skel s'))"
proof (cases "resolve (eval_props (eval_nexpr fns r) (nq_merge q))")
  case (Inl k)
  then show ?thesis by (simp add: node_row_def)
next
  case (Inr pat)
  note mc = merge_node_cong[OF assms(2) merge_pattern_unsettable[OF assms(1) Inr]]
  show ?thesis
  proof (cases "merge_node (nq_label q) pat s")
    case (Inl e)
    with mc have "merge_node (nq_label q) pat t = Inl e" by simp
    with Inl Inr show ?thesis by (simp add: node_row_def)
  next
    case (Inr a)
    obtain s1 ms where a: "a = (s1, ms)" by (cases a)
    with Inr mc obtain t1 where t1: "merge_node (nq_label q) pat t = Inr (t1, ms)"
      and sk1: "skel t1 = skel s1" by auto
    from \<open>resolve (eval_props (eval_nexpr fns r) (nq_merge q)) = Inr pat\<close> Inr a
    obtain s' where s': "node_row fns q r s = Inr s'" by (simp add: node_row_def)
    from \<open>resolve (eval_props (eval_nexpr fns r) (nq_merge q)) = Inr pat\<close> t1
    obtain t' where t': "node_row fns q r t = Inr t'" by (simp add: node_row_def)
    from node_row_skel[OF assms(1) s'] \<open>resolve (eval_props (eval_nexpr fns r) (nq_merge q)) = Inr pat\<close>
      Inr a have "skel s' = skel s1" by auto
    moreover from node_row_skel[OF assms(1) t']
      \<open>resolve (eval_props (eval_nexpr fns r) (nq_merge q)) = Inr pat\<close> t1
    have "skel t' = skel t1" by auto
    ultimately show ?thesis using s' t' sk1 by simp
  qed
qed

lemma for_rows_fails_cong:
  assumes "for_rows f rows s = Inl e" "R s t"
    and "\<And>r u v. R u v \<Longrightarrow>
           (\<forall>e. f r u = Inl e \<longrightarrow> f r v = Inl e) \<and>
           (\<forall>u'. f r u = Inr u' \<longrightarrow> (\<exists>v'. f r v = Inr v' \<and> R u' v'))"
  shows "for_rows f rows t = Inl e"
  using assms(1,2)
proof (induction rows arbitrary: s t)
  case Nil
  then show ?case by simp
next
  case (Cons r rows)
  show ?case
  proof (cases "f r s")
    case (Inl e')
    with Cons.prems(1) have "e' = e" by simp
    with Inl assms(3)[OF Cons.prems(2), of r] show ?thesis by simp
  next
    case (Inr s1)
    with assms(3)[OF Cons.prems(2), of r] obtain t1 where t1: "f r t = Inr t1" "R s1 t1" by auto
    from Cons.prems(1) Inr have "for_rows f rows s1 = Inl e" by simp
    from Cons.IH[OF this t1(2)] t1(1) show ?thesis by simp
  qed
qed

lemma load_nodes_fails_skel:
  fixes s t :: "'f store"
  assumes "wf_nq q" "load_nodes fns src q s = Inl e" "skel s = skel t"
  shows "load_nodes fns src q t = Inl e"
  using assms(2) unfolding load_nodes_def
proof (rule for_rows_fails_cong[where R = "\<lambda>u v. skel u = skel v"])
  show "skel s = skel t" by (rule assms(3))
  fix r and u v :: "'f store"
  assume "skel u = skel v"
  from node_row_cong[OF assms(1) this]
  show "(\<forall>e. node_row fns q r u = Inl e \<longrightarrow> node_row fns q r v = Inl e) \<and>
        (\<forall>u'. node_row fns q r u = Inr u' \<longrightarrow> (\<exists>v'. node_row fns q r v = Inr v' \<and> skel u' = skel v'))"
    by (metis (no_types))
qed

lemma load_rels_never_fails: "load_rels fns src q s \<noteq> Inl e"
proof -
  have "for_rows (rel_row fns q) rows u \<noteq> Inl e" for rows u
    by (induction rows arbitrary: u) (auto simp: rel_row_def)
  then show ?thesis by (simp add: load_rels_def)
qed

lemma set_uniqueness_constraints_fails_skel:
  fixes s t :: "'f store"
  assumes "set_uniqueness_constraints L s = Inl e" "skel s = skel t"
  shows "set_uniqueness_constraints L t = Inl e"
proof -
  from assms(2) have "constraints s = constraints t" by (simp add: skel_eq_iff)
  with assms(1) ids_of_skel[OF assms(2), of L] show ?thesis
    by (auto simp: set_uniqueness_constraints_def split: if_splits)
qed

section \<open>Statements of the job\<close>

lemma exec_stage_grows:
  assumes "wf_stage x" "exec_stage fns src x s = Inr s'"
  shows "grows s s' \<and> (2 \<le> stage_rank x \<longrightarrow> nodes s' = nodes s)"
proof (cases x)
  case (SetConstraint L)
  with assms(2) have "s' = s \<or> s' = s\<lparr>constraints := insert L (constraints s)\<rparr>"
    by (auto simp: set_uniqueness_constraints_def split: if_splits)
  then have "grows s s'" "nodes s' = nodes s"
    by (auto simp: grows_def)
  then show ?thesis by simp
next
  case (LoadNodes q)
  with assms load_nodes_grows[of q fns src s s'] show ?thesis by simp
next
  case (LoadRels q)
  with assms load_rels_grows[of fns src q s s'] show ?thesis by simp
next
  case InferEmploys
  with assms infer_employs_grows[of s s'] show ?thesis by simp
qed

lemma exec_stage_absorbs:
  assumes "wf_stage x" "exec_stage fns src x s = Inr s'"
  shows "absorbed fns src x s'"
proof (cases x)
  case (SetConstraint L)
  with assms(2) set_uniqueness_constraints_frame[of L s s'] show ?thesis by simp
next
  case (LoadNodes q)
  with assms load_nodes_absorbs[of q fns src s s'] show ?thesis by simp
next
  case (LoadRels q)
  with assms load_rels_absorbs[of fns src q s s'] show ?thesis by simp
next
  case InferEmploys
  with assms infer_employs_absorbs[of s s' fns src] show ?thesis by simp
qed

lemma list_all_mono:
  assumes "list_all P xs" "\<And>x. P x \<Longrightarrow> Q x"
  shows "list_all Q xs"
  using assms by (auto simp: list_all_iff)

lemma absorbed_grows:
  assumes "wf_stage x" "absorbed fns src x s" "grows s s'"
    "2 \<le> stage_rank x \<Longrightarrow> nodes s' = nodes s"
  shows "absorbed fns src x s'"
proof (cases x)
  case (SetConstraint L)
  with assms(2,3) show ?thesis by (auto simp: grows_def)
next
  case (LoadNodes q)
  with assms(1) have wf: "wf_nq q" by simp
  from assms(2) LoadNodes have "list_all (row_absorbed fns q s) (src (nq_label q))" by simp
  then have "list_all (row_absorbed fns q s') (src (nq_label q))"
    by (rule list_all_mono) (rule row_absorbed_grows[OF wf assms(3)])
  with LoadNodes show ?thesis by simp
next
  case (LoadRels q)
  with assms(4) have n: "grows s s' \<and> nodes s' = nodes s" using assms(3) by simp
  from assms(2) LoadRels have "list_all (rel_row_absorbed fns q s) (src (rq_file q))" by simp
  then have "list_all (rel_row_absorbed fns q s') (src (rq_file q))"
    by (rule list_all_mono) (rule rel_row_absorbed_grows[OF n])
  with LoadRels show ?thesis by simp
next
  case InferEmploys
  let ?c = "\<lambda>u. List.product (match_nodes u Physician []) (match_nodes u Hospital [])"
  from InferEmploys assms(4) have n: "nodes s' = nodes s" by simp
  from assms(2) InferEmploys obtain phs where w: "where_employs s (?c s) = Inr phs"
    and a: "pairs_absorbed s EMPLOYS phs"
    by (auto split: sum.splits)
  from n have "?c s' = ?c s" by (simp add: match_nodes_def)
  with where_employs_nodes[OF n] w have "where_employs s' (?c s') = Inr phs" by simp
  with pairs_absorbed_grows[OF assms(3) a] InferEmploys show ?thesis by simp
qed

lemma absorbed_rerun:
  fixes s u :: "'f store"
  assumes "wf_stage x" "absorbed fns src x s" "skel u = skel s"
  shows "\<exists>u'. exec_stage fns src x u = Inr u' \<and> skel u' = skel s"
proof (cases x)
  case (SetConstraint L)
  from assms(3) have "constraints u = constraints s" by (simp add: skel_eq_iff)
  with assms(2,3) SetConstraint show ?thesis by (simp add: set_uniqueness_constraints_def)
next
  case (LoadNodes q)
  with assms load_nodes_absorbed[of q fns s src u] show ?thesis by simp
next
  case (LoadRels q)
  with assms load_rels_absorbed[of q fns s src u] show ?thesis by simp
next
  case InferEmploys
  with assms infer_employs_absorbed[of fns src s u] show ?thesis by simp
qed

lemma exec_stage_fails_skel:
  fixes s t :: "'f store"
  assumes "wf_stage x" "exec_stage fns src x s = Inl e" "skel s = skel t"
  shows "exec_stage fns src x t = Inl e"
proof (cases x)
  case (SetConstraint L)
  with assms set_uniqueness_constraints_fails_skel[of L s e t] show ?thesis by simp
next
  case (LoadNodes q)
  with assms load_nodes_fails_skel[of q fns src s e t] show ?thesis by simp
next
  case (LoadRels q)
  with assms(2) load_rels_never_fails[of fns src q s e] show ?thesis by simp
next
  case InferEmploys
  with assms infer_employs_fails_skel[of s e t] show ?thesis by simp
qed

section \<open>Growth along a run\<close>

lemma run_stages_grows:
  assumes "run_stages fns src xs s = (res, s', issued)" "\<forall>x\<in>set xs. wf_stage x"
  shows "grows s s' \<and> (list_all (\<lambda>y. 2 \<le> stage_rank y) xs \<longrightarrow> nodes s' = nodes s)"
  using assms
proof (induction xs arbitrary: s res issued)
  case Nil
  then show ?case by simp
next
  case (Cons x xs)
  from Cons.prems(1) show ?case
  proof (cases rule: run_stages_Cons_cases)
    case (raised e)
    then show ?thesis by simp
  next
    case (continued s1 i2)
    from Cons.prems(2) have wf: "wf_stage x" "\<forall>x\<in>set xs. wf_stage x" by simp_all
    from continued(1) exec_stage_grows[OF wf(1), of fns src s s1]
    have "grows s s1 \<and> (2 \<le> stage_rank x \<longrightarrow> nodes s1 = nodes s)" by auto
    with Cons.IH[OF continued(2) wf(2)] grows_trans[of s s1 s']
    show ?thesis by auto
  qed
qed

lemma ordered_pipeline: "ordered pipeline"
  by (simp add: pipeline_def NODES_def node_queries_def rel_queries_def hospital_nodes_def
      payer_nodes_def physician_nodes_def patient_nodes_def visit_nodes_def review_nodes_def)

lemma node_count_skel:
  fixes s t :: "'f store"
  assumes "skel s = skel t"
  shows "node_count s K = node_count t K"
proof -
  have "node_count u K = length (filter (\<lambda>p. fst p = K) (map skel_node (nodes u)))"
    for u :: "'f store"
    by (simp add: node_count_def filter_map comp_def skel_node_def)
  note c = this
  from assms have "map skel_node (nodes s) = map skel_node (nodes t)" by (simp add: skel_eq_iff)
  then show ?thesis by (simp add: c[of s] c[of t])
qed

lemma edge_count_skel:
  assumes "skel s = skel t"
  shows "edge_count s R = edge_count t R"
proof -
  from assms have eq: "map skel_rel (rels s) = map skel_rel (rels t)" by (simp add: skel_eq_iff)
  have "edge_count s R = length (filter (\<lambda>p. fst p = R) (map skel_rel (rels s)))"
    by (simp add: edge_count_def filter_map comp_def skel_rel_def)
  also have "\<dots> = length (filter (\<lambda>p. fst p = R) (map skel_rel (rels t)))"
    by (simp only: eq)
  also have "\<dots> = edge_count t R"
    by (simp add: edge_count_def filter_map comp_def skel_rel_def)
  finally show ?thesis .
qed

section \<open>No parallel relationships\<close>

lemma no_parallel_skel:
  fixes s t :: "'f store"
  shows "skel s = skel t \<Longrightarrow> no_parallel s = no_parallel t"
  by (simp add: no_parallel_def skel_eq_iff)

lemma match_rels_none:
  assumes "match_rels s t a b = []"
  shows "(t, a, b) \<notin> set (map skel_rel (rels s))"
proof
  assume "(t, a, b) \<in> set (map skel_rel (rels s))"
  then obtain j where j: "j < length (rels s)" "skel_rel (rels s ! j) = (t, a, b)"
    by (auto simp: in_set_conv_nth)
  then have "j \<in> set (match_rels s t a b)"
    by (simp add: match_rels_def rel_matches_skel)
  with assms show False by simp
qed

lemma merge_rel_no_parallel:
  assumes "no_parallel s"
  shows "no_parallel (fst (merge_rel t a b s))"
  using merge_rel_cases[of s t a b]
proof
  assume "match_rels s t a b \<noteq> [] \<and> merge_rel t a b s = (s, match_rels s t a b)"
  with assms show ?thesis by simp
next
  assume c: "match_rels s t a b = [] \<and>
    merge_rel t a b s =
      (s\<lparr>rels := rels s @ [\<lparr>rkind = t, rsrc = a, rdst = b, rprops = Map.empty\<rparr>]\<rparr>,
       [length (rels s)])"
  with match_rels_none[of s t a b] assms show ?thesis
    by (simp add: no_parallel_def skel_rel_def)
qed

lemma merge_set_rel_no_parallel:
  fixes s :: "'f store"
  assumes "no_parallel s"
  shows "no_parallel (merge_set_rel fns q r ab s)"
  using merge_rel_no_parallel[OF assms, of "rq_kind q" "fst ab" "snd ab"]
    no_parallel_skel[OF merge_set_rel_skel, of fns q r ab s]
  by simp

lemma fold_invariant:
  assumes "P s" "\<And>x u. P u \<Longrightarrow> P (g x u)"
  shows "P (fold g xs s)"
  using assms(1) by (induction xs arbitrary: s) (simp_all add: assms(2))

lemma rel_row_no_parallel:
  fixes s :: "'f store"
  assumes "no_parallel s" "rel_row fns q r s = Inr s'"
  shows "no_parallel s'"
proof -
  from assms(2) have s': "s' = fold (merge_set_rel fns q r)
      (List.product (match_endpoint fns r s (rq_from q)) (match_endpoint fns r s (rq_to q))) s"
    by (simp add: rel_row_result)
  show ?thesis unfolding s'
    by (rule fold_invariant[where P = no_parallel, OF assms(1)]) (rule merge_set_rel_no_parallel)
qed

lemma merge_node_rels:
  assumes "merge_node L pat s = Inr (s1, ms)"
  shows "rels s1 = rels s"
  using merge_node_cases[OF assms] create_node_cases(1)[of L pat s s1] by auto

lemma node_row_no_parallel:
  fixes s :: "'f store"
  assumes "wf_nq q" "no_parallel s" "node_row fns q r s = Inr s'"
  shows "no_parallel s'"
proof -
  from node_row_skel[OF assms(1,3)] obtain pat s1 ms where
    m: "merge_node (nq_label q) pat s = Inr (s1, ms)" and sk: "skel s' = skel s1" by blast
  from merge_node_rels[OF m] assms(2) have "no_parallel s1" by (simp add: no_parallel_def)
  with no_parallel_skel[OF sk] show ?thesis by simp
qed

lemma exec_stage_no_parallel:
  fixes s :: "'f store"
  assumes "wf_stage x" "no_parallel s" "exec_stage fns src x s = Inr s'"
  shows "no_parallel s'"
proof (cases x)
  case (SetConstraint L)
  with assms(3) have "s' = s \<or> s' = s\<lparr>constraints := insert L (constraints s)\<rparr>"
    by (auto simp: set_uniqueness_constraints_def split: if_splits)
  with assms(2) show ?thesis by (auto simp: no_parallel_def)
next
  case (LoadNodes q)
  with assms(1) have wf: "wf_nq q" by simp
  from assms(3) LoadNodes have "for_rows (node_row fns q) (src (nq_label q)) s = Inr s'"
    by (simp add: load_nodes_def)
  from for_rows_invariant[where P = no_parallel, OF this assms(2)] node_row_no_parallel[OF wf]
  show ?thesis by blast
next
  case (LoadRels q)
  with assms(3) have "for_rows (rel_row fns q) (src (rq_file q)) s = Inr s'"
    by (simp add: load_rels_def)
  from for_rows_invariant[where P = no_parallel, OF this assms(2)] rel_row_no_parallel
  show ?thesis by blast
next
  case InferEmploys
  with assms(3) obtain phs where
    s': "s' = fold (\<lambda>(p, h) s. fst (merge_rel EMPLOYS p h s)) phs s"
    by (auto simp: infer_employs_def split: sum.splits)
  show ?thesis unfolding s'
    by (rule fold_invariant[where P = no_parallel, OF assms(2)])
      (simp add: case_prod_unfold merge_rel_no_parallel)
qed

lemma run_stages_invariant:
  assumes "run_stages fns src xs s = (res, s', issued)" "P s"
    "\<And>x u u'. x \<in> set xs \<Longrightarrow> P u \<Longrightarrow> exec_stage fns src x u = Inr u' \<Longrightarrow> P u'"
  shows "P s'"
  using assms
proof (induction xs arbitrary: s res issued)
  case Nil
  then show ?case by simp
next
  case (Cons x xs)
  from Cons.prems(1) show ?case
  proof (cases rule: run_stages_Cons_cases)
    case (raised e)
    with Cons.prems(2) show ?thesis by simp
  next
    case (continued s1 i2)
    from continued(1) Cons.prems(2) Cons.prems(3)[of x s s1] have p1: "P s1" by auto
    show ?thesis
    proof (rule Cons.IH[OF continued(2) p1])
      fix y u u' assume "y \<in> set xs" "P u" "exec_stage fns src y u = Inr u'"
      then show "P u'" using Cons.prems(3)[of y u u'] by simp
    qed
  qed
qed

lemma load_attempt_no_parallel:
  fixes s :: "'f store"
  assumes "load_attempt fns src up s = (res, s', issued)" "no_parallel s"
  shows "no_parallel s'"
proof (cases up)
  case True
  with assms(1) have run: "run_stages fns src pipeline s = (res, s', issued)"
    by (simp add: load_attempt_def)
  show ?thesis
    by (rule run_stages_invariant[where P = no_parallel, OF run assms(2)])
      (rule exec_stage_no_parallel[OF wf_pipeline])
next
  case False
  with assms show ?thesis by (simp add: load_attempt_def)
qed

lemma no_parallel_empty: "no_parallel empty_store"
  by (simp add: no_parallel_def empty_store_def)

lemma at_most_one:
  assumes "distinct ys" "\<And>x y. x \<in> set ys \<Longrightarrow> y \<in> set ys \<Longrightarrow> x = y"
  shows "length ys \<le> 1"
proof (cases ys)
  case Nil
  then show ?thesis by simp
next
  case (Cons a zs)
  show ?thesis
  proof (cases zs)
    case Nil
    with Cons show ?thesis by simp
  next
    case (Cons b ws)
    with \<open>ys = a # zs\<close> assms(2)[of a b] have "a = b" by simp
    with Cons \<open>ys = a # zs\<close> assms(1) show ?thesis by simp
  qed
qed

lemma no_parallel_match:
  assumes "no_parallel s"
  shows "length (match_rels s t a b) \<le> 1"
proof (rule at_most_one)
  show "distinct (match_rels s t a b)" by (simp add: match_rels_def)
  fix i j assume "i \<in> set (match_rels s t a b)" "j \<in> set (match_rels s t a b)"
  then have i: "i < length (rels s)" "skel_rel (rels s ! i) = (t, a, b)"
    and j: "j < length (rels s)" "skel_rel (rels s ! j) = (t, a, b)"
    by (simp_all add: match_rels_def rel_matches_skel)
  from assms have "distinct (map skel_rel (rels s))" by (simp add: no_parallel_def)
  with i j show "i = j" by (simp add: distinct_conv_nth) (metis length_map nth_map)
qed



section \<open>What a node statement sees\<close>

lemma kind_view_skel:
  fixes s t :: "'f store"
  shows "skel s = skel t \<Longrightarrow> kind_view s L = kind_view t L"
  by (simp add: kind_view_def skel_eq_iff)

lemma node_matches_skel_node:
  assumes "fst ` set pat \<inter> settable L = {}"
  shows "node_matches n L pat \<longleftrightarrow>
           fst (skel_node n) = L \<and> list_all (\<lambda>(k, v). snd (skel_node n) k = Some v) pat"
proof (cases "nlabel n = L")
  case True
  have "snd (skel_node n) k = nprops n k" if "(k, v) \<in> set pat" for k v
  proof -
    from that assms have "k \<notin> settable L" by force
    with True show ?thesis by (simp add: skel_node_def)
  qed
  then have "list_all (\<lambda>(k, v). snd (skel_node n) k = Some v) pat =
             list_all (\<lambda>(k, v). nprops n k = Some v) pat"
    by (auto simp: list_all_iff)
  with True show ?thesis by (simp add: node_matches_def skel_node_def)
next
  case False
  then show ?thesis by (simp add: node_matches_def skel_node_def)
qed

lemma match_nodes_view:
  fixes s t :: "'f store"
  assumes "kind_view s L = kind_view t L" "fst ` set pat \<inter> settable L = {}"
  shows "match_nodes s L pat = [] \<longleftrightarrow> match_nodes t L pat = []"
proof -
  let ?P = "\<lambda>p. list_all (\<lambda>(k, v). snd p k = Some v) pat"
  have v: "match_nodes u L pat = [] \<longleftrightarrow>
          \<not> list_ex ?P (filter (\<lambda>p. fst p = L) (map skel_node (nodes u)))" for u :: "'f store"
  proof -
    have "match_nodes u L pat = [] \<longleftrightarrow> (\<forall>n\<in>set (nodes u). \<not> node_matches n L pat)"
      by (auto simp: match_nodes_def filter_empty_conv all_set_conv_all_nth)
    also have "\<dots> \<longleftrightarrow> \<not> list_ex ?P (filter (\<lambda>p. fst p = L) (map skel_node (nodes u)))"
      by (auto simp: node_matches_skel_node[OF assms(2)] list_ex_iff)
    finally show ?thesis .
  qed
  from assms(1) have "filter (\<lambda>p. fst p = L) (map skel_node (nodes s)) =
                      filter (\<lambda>p. fst p = L) (map skel_node (nodes t))"
    by (simp add: kind_view_def)
  with v[of s] v[of t] show ?thesis by simp
qed

lemma id_taken_view:
  fixes s t :: "'f store"
  assumes "kind_view s L = kind_view t L"
  shows "id_taken s L v = id_taken t L v"
proof -
  have v: "id_taken u L v =
          list_ex (\<lambda>p. snd p ''id'' = Some v) (filter (\<lambda>p. fst p = L) (map skel_node (nodes u)))"
    for u :: "'f store"
    by (auto simp: id_taken_def list_ex_iff skel_node_def)
  from assms have "filter (\<lambda>p. fst p = L) (map skel_node (nodes s)) =
                   filter (\<lambda>p. fst p = L) (map skel_node (nodes t))"
    by (simp add: kind_view_def)
  with v[of s] v[of t] show ?thesis by simp
qed

lemma kind_view_created:
  "kind_view (s\<lparr>nodes := nodes s @ [n]\<rparr>) L =
     (L \<in> constraints s,
      filter (\<lambda>p. fst p = L) (map skel_node (nodes s)) @ (if nlabel n = L then [skel_node n] else []))"
  by (simp add: kind_view_def skel_node_def)

lemma merge_node_view:
  fixes s t :: "'f store"
  assumes "kind_view s L = kind_view t L" "fst ` set pat \<inter> settable L = {}"
  shows "(\<forall>e. merge_node L pat s = Inl e \<longrightarrow> merge_node L pat t = Inl e) \<and>
         (\<forall>s1 ms. merge_node L pat s = Inr (s1, ms) \<longrightarrow>
            (\<exists>t1 ms'. merge_node L pat t = Inr (t1, ms') \<and> kind_view s1 L = kind_view t1 L))"
proof (cases "match_nodes s L pat")
  case Nil
  with match_nodes_view[OF assms] have mt: "match_nodes t L pat = []" by simp
  from assms(1) have c: "L \<in> constraints s \<longleftrightarrow> L \<in> constraints t"
    and f: "filter (\<lambda>p. fst p = L) (map skel_node (nodes s)) =
            filter (\<lambda>p. fst p = L) (map skel_node (nodes t))"
    by (simp_all add: kind_view_def)
  show ?thesis
  proof (cases "L \<in> constraints s \<and>
      (case map_of pat (constraint_property L) of None \<Rightarrow> False | Some v \<Rightarrow> id_taken s L v)")
    case True
    with c id_taken_view[OF assms(1)] have "L \<in> constraints t \<and>
      (case map_of pat (constraint_property L) of None \<Rightarrow> False | Some v \<Rightarrow> id_taken t L v)"
      by (auto split: option.splits)
    with True Nil mt show ?thesis by (simp add: merge_node_def create_node_def)
  next
    case False
    with c id_taken_view[OF assms(1)] have "\<not> (L \<in> constraints t \<and>
      (case map_of pat (constraint_property L) of None \<Rightarrow> False | Some v \<Rightarrow> id_taken t L v))"
      by (auto split: option.splits)
    with False Nil mt c f show ?thesis
      by (simp add: merge_node_def create_node_def kind_view_created)
  qed
next
  case (Cons m ms)
  with match_nodes_view[OF assms] obtain m' ms' where "match_nodes t L pat = m' # ms'"
    by (cases "match_nodes t L pat") auto
  with Cons assms(1) show ?thesis by (simp add: merge_node_def)
qed

lemma node_row_view:
  fixes s t :: "'f store"
  assumes "wf_nq q" "kind_view s (nq_label q) = kind_view t (nq_label q)"
  shows "(\<forall>e. node_row fns q r s = Inl e \<longrightarrow> node_row fns q r t = Inl e) \<and>
         (\<forall>s'. node_row fns q r s = Inr s' \<longrightarrow>
            (\<exists>t'. node_row fns q r t = Inr t' \<and>
               kind_view s' (nq_label q) = kind_view t' (nq_label q)))"
proof (cases "resolve (eval_props (eval_nexpr fns r) (nq_merge q))")
  case (Inl k)
  then show ?thesis by (simp add: node_row_def)
next
  case (Inr pat)
  note res = Inr
  note mc = merge_node_view[OF assms(2) merge_pattern_unsettable[OF assms(1) res]]
  show ?thesis
  proof (cases "merge_node (nq_label q) pat s")
    case (Inl e)
    with mc have "merge_node (nq_label q) pat t = Inl e" by simp
    with Inl res show ?thesis by (simp add: node_row_def)
  next
    case (Inr a)
    obtain s1 ms where a: "a = (s1, ms)" by (cases a)
    with Inr mc obtain t1 ms' where t1: "merge_node (nq_label q) pat t = Inr (t1, ms')"
      and v1: "kind_view s1 (nq_label q) = kind_view t1 (nq_label q)" by auto
    from res Inr a obtain s' where s': "node_row fns q r s = Inr s'" by (simp add: node_row_def)
    from res t1 obtain t' where t': "node_row fns q r t = Inr t'" by (simp add: node_row_def)
    from node_row_skel[OF assms(1) s'] res Inr a have "skel s' = skel s1" by auto
    moreover from node_row_skel[OF assms(1) t'] res t1 have "skel t' = skel t1" by auto
    ultimately have "kind_view s' (nq_label q) = kind_view t' (nq_label q)"
      using v1 kind_view_skel[of s' s1 "nq_label q"] kind_view_skel[of t' t1 "nq_label q"] by simp
    with s' t' show ?thesis by simp
  qed
qed

lemma load_nodes_fails_view:
  fixes s t :: "'f store"
  assumes "wf_nq q" "load_nodes fns src q s = Inl e"
    "kind_view s (nq_label q) = kind_view t (nq_label q)"
  shows "load_nodes fns src q t = Inl e"
  using assms(2) unfolding load_nodes_def
proof (rule for_rows_fails_cong[where R = "\<lambda>u v. kind_view u (nq_label q) = kind_view v (nq_label q)"])
  show "kind_view s (nq_label q) = kind_view t (nq_label q)" by (rule assms(3))
  fix r and u v :: "'f store"
  assume "kind_view u (nq_label q) = kind_view v (nq_label q)"
  from node_row_view[OF assms(1) this]
  show "(\<forall>e. node_row fns q r u = Inl e \<longrightarrow> node_row fns q r v = Inl e) \<and>
        (\<forall>u'. node_row fns q r u = Inr u' \<longrightarrow>
           (\<exists>v'. node_row fns q r v = Inr v' \<and>
              kind_view u' (nq_label q) = kind_view v' (nq_label q)))" .
qed

lemma node_row_other_view:
  fixes s :: "'f store"
  assumes "wf_nq q" "node_row fns q r s = Inr s'" "nq_label q \<noteq> L"
  shows "kind_view s' L = kind_view s L"
proof -
  from node_row_skel[OF assms(1,2)] obtain pat s1 ms where
    m: "merge_node (nq_label q) pat s = Inr (s1, ms)" and sk: "skel s' = skel s1" by blast
  have "kind_view s1 L = kind_view s L"
    using merge_node_cases[OF m]
  proof
    assume "ms = match_nodes s (nq_label q) pat \<and> ms \<noteq> [] \<and> s1 = s"
    then show ?thesis by simp
  next
    assume "match_nodes s (nq_label q) pat = [] \<and> create_node (nq_label q) pat s = Inr s1 \<and>
      ms = [length (nodes s)]"
    then have s1: "s1 = s\<lparr>nodes := nodes s @ [\<lparr>nlabel = nq_label q, nprops = map_of pat\<rparr>]\<rparr>"
      using create_node_cases(1) by blast
    show ?thesis unfolding s1 kind_view_created using assms(3) by (simp add: kind_view_def)
  qed
  with kind_view_skel[OF sk, of L] show ?thesis by simp
qed

lemma exec_stage_view:
  fixes s :: "'f store"
  assumes "wf_stage x" "exec_stage fns src x s = Inr s'" "\<not> touches L x"
  shows "kind_view s' L = kind_view s L"
proof (cases x)
  case (SetConstraint K)
  with assms(2) set_uniqueness_constraints_frame[of K s s']
  have "nodes s' = nodes s" "constraints s' = insert K (constraints s)" by simp_all
  with assms(3) SetConstraint show ?thesis by (auto simp: kind_view_def)
next
  case (LoadNodes q)
  with assms(1,3) have wf: "wf_nq q" and l: "nq_label q \<noteq> L" by simp_all
  from assms(2) LoadNodes have fr: "for_rows (node_row fns q) (src (nq_label q)) s = Inr s'"
    by (simp add: load_nodes_def)
  show ?thesis
  proof (rule for_rows_invariant[where P = "\<lambda>u. kind_view u L = kind_view s L", OF fr])
    show "kind_view s L = kind_view s L" by simp
    fix r and u u' :: "'f store"
    assume u: "kind_view u L = kind_view s L" and row: "node_row fns q r u = Inr u'"
    from node_row_other_view[OF wf row l] u show "kind_view u' L = kind_view s L" by simp
  qed
next
  case (LoadRels q)
  with assms(2) load_rels_frame[of fns src q s s'] show ?thesis by (simp add: kind_view_def)
next
  case InferEmploys
  with assms(2) infer_employs_frame[of s s'] show ?thesis by (simp add: kind_view_def)
qed

lemma run_stages_view:
  fixes s :: "'f store"
  assumes "run_stages fns src xs s = (res, s', issued)" "\<forall>x\<in>set xs. wf_stage x"
    "list_all (\<lambda>y. \<not> touches L y) xs"
  shows "kind_view s' L = kind_view s L"
proof (rule run_stages_invariant[where P = "\<lambda>u. kind_view u L = kind_view s L", OF assms(1)])
  show "kind_view s L = kind_view s L" by simp
  fix x and u u' :: "'f store"
  assume x: "x \<in> set xs" and u: "kind_view u L = kind_view s L"
    and e: "exec_stage fns src x u = Inr u'"
  from x assms(2,3) have "wf_stage x" "\<not> touches L x" by (simp_all add: list_all_iff)
  from exec_stage_view[OF this(1) e this(2)] u show "kind_view u' L = kind_view s L" by simp
qed

text \<open>
  A statement that failed with its result dropped fails in the same way on the store the
  rest of the list leaves.
\<close>

lemma dropped_failure_persists:
  fixes s :: "'f store"
  assumes "wf_stage x" "exec_stage fns src x s = Inl e"
    "run_stages fns src xs s = (res, s', issued)" "\<forall>x\<in>set xs. wf_stage x" "ordered (x # xs)"
    "result_dropped x"
  shows "exec_stage fns src x s' = Inl e"
proof (cases x)
  case (SetConstraint K)
  with assms(6) show ?thesis by simp
next
  case (LoadNodes q)
  with assms(1,5) have wf: "wf_nq q" and o: "list_all (\<lambda>y. \<not> touches (nq_label q) y) xs"
    by simp_all
  from run_stages_view[OF assms(3,4) o]
  have "kind_view s (nq_label q) = kind_view s' (nq_label q)" by simp
  from load_nodes_fails_view[OF wf _ this] assms(2) LoadNodes show ?thesis by simp
next
  case (LoadRels q)
  with assms(2) load_rels_never_fails[of fns src q s e] show ?thesis by simp
next
  case InferEmploys
  with assms(5) have "list_all (\<lambda>y. 2 \<le> stage_rank y) xs" by simp
  with run_stages_grows[OF assms(3,4)] have n: "nodes s' = nodes s" by simp
  then have c: "List.product (match_nodes s' Physician []) (match_nodes s' Hospital []) =
                List.product (match_nodes s Physician []) (match_nodes s Hospital [])"
    by (simp add: match_nodes_def)
  from assms(2) InferEmploys
  have "where_employs s (List.product (match_nodes s Physician []) (match_nodes s Hospital [])) = Inl e"
    by (auto simp: infer_employs_def split: sum.splits)
  with where_employs_nodes[OF n] c InferEmploys show ?thesis
    by (simp add: infer_employs_def)
qed

section \<open>Idempotence of the full load\<close>

lemma run_stages_settles:
  assumes "run_stages fns src xs s0 = (res, s, issued)" "\<forall>x\<in>set xs. wf_stage x" "ordered xs"
  shows "settled fns src xs s res"
  using assms
proof (induction xs arbitrary: s0 res issued)
  case Nil
  then show ?case by simp
next
  case (Cons x xs)
  from Cons.prems(2) have wf: "wf_stage x" "\<forall>x\<in>set xs. wf_stage x" by simp_all
  from Cons.prems(3) have ord: "stage_rank x \<le> 1 \<or> list_all (\<lambda>y. 2 \<le> stage_rank y) xs"
    "ordered xs" by simp_all
  from Cons.prems(1) show ?case
  proof (cases rule: run_stages_Cons_cases)
    case (raised e)
    then show ?thesis by simp
  next
    case (continued s1 i2)
    from Cons.IH[OF continued(2) wf(2) ord(2)] have ih: "settled fns src xs s res" .
    from continued(1) show ?thesis
    proof
      assume ok: "exec_stage fns src x s0 = Inr s1"
      from run_stages_grows[OF continued(2) wf(2)] have g: "grows s1 s"
        and n: "list_all (\<lambda>y. 2 \<le> stage_rank y) xs \<Longrightarrow> nodes s = nodes s1" by simp_all
      have "absorbed fns src x s"
      proof (rule absorbed_grows[OF wf(1) exec_stage_absorbs[OF wf(1) ok] g])
        assume "2 \<le> stage_rank x"
        with ord(1) have "list_all (\<lambda>y. 2 \<le> stage_rank y) xs" by simp
        then show "nodes s = nodes s1" by (rule n)
      qed
      with ih show ?thesis by simp
    next
      assume "(\<exists>e. exec_stage fns src x s0 = Inl e) \<and> result_dropped x \<and> s1 = s0"
      then obtain e where e: "exec_stage fns src x s0 = Inl e" and d: "result_dropped x"
        and s1: "s1 = s0" by blast
      from dropped_failure_persists[OF wf(1) e continued(2)[unfolded s1] wf(2) Cons.prems(3) d]
      have "exec_stage fns src x s = Inl e" .
      with ih d show ?thesis by simp
    qed
  qed
qed

lemma settled_rerun:
  fixes s t :: "'f store"
  assumes "settled fns src xs s res" "skel t = skel s" "\<forall>x\<in>set xs. wf_stage x"
  shows "\<exists>t' issued. run_stages fns src xs t = (res, t', issued) \<and> skel t' = skel s"
  using assms
proof (induction xs arbitrary: t)
  case Nil
  then show ?case by simp
next
  case (Cons x xs)
  from Cons.prems(3) have wf: "wf_stage x" "\<forall>x\<in>set xs. wf_stage x" by simp_all
  have absorbed_case: ?case if ok: "absorbed fns src x s" "settled fns src xs s res"
  proof -
    from absorbed_rerun[OF wf(1) ok(1) Cons.prems(2)] obtain t1
      where t1: "exec_stage fns src x t = Inr t1" "skel t1 = skel s" by blast
    from Cons.IH[OF ok(2) t1(2) wf(2)] obtain t' i2
      where "run_stages fns src xs t1 = (res, t', i2)" "skel t' = skel s" by blast
    with t1(1) show ?thesis by simp
  qed
  show ?case
  proof (cases "result_dropped x")
    case True
    with Cons.prems(1) have a: "isl (exec_stage fns src x s) \<or> absorbed fns src x s"
      and st: "settled fns src xs s res" by simp_all
    from a show ?thesis
    proof
      assume "isl (exec_stage fns src x s)"
      then obtain e where "exec_stage fns src x s = Inl e"
        by (cases "exec_stage fns src x s") auto
      from exec_stage_fails_skel[OF wf(1) this Cons.prems(2)[symmetric]]
      have f: "exec_stage fns src x t = Inl e" .
      from Cons.IH[OF st Cons.prems(2) wf(2)] obtain t' i2
        where "run_stages fns src xs t = (res, t', i2)" "skel t' = skel s" by blast
      with f True show ?thesis by simp
    next
      assume "absorbed fns src x s"
      from absorbed_case[OF this st] show ?thesis .
    qed
  next
    case False
    with Cons.prems(1) consider
      (fail) e where "res = Some e" "exec_stage fns src x s = Inl e"
      | (ok) "absorbed fns src x s" "settled fns src xs s res"
      by (auto split: option.splits)
    then show ?thesis
    proof cases
      case fail
      from exec_stage_fails_skel[OF wf(1) fail(2) Cons.prems(2)[symmetric]] fail(1) Cons.prems(2) False
      show ?thesis by simp
    next
      case ok
      from absorbed_case[OF ok] show ?thesis .
    qed
  qed
qed

lemma attempt_settles:
  assumes "load_attempt fns src True s0 = (res, s, issued)"
  shows "settled fns src pipeline s res"
  using assms wf_pipeline ordered_pipeline
  by (intro run_stages_settles[of fns src pipeline s0 res s issued]) (simp_all add: load_attempt_def)

lemma attempt_rerun:
  fixes s t :: "'f store"
  assumes "settled fns src pipeline s res" "skel t = skel s"
  shows "\<exists>t' issued. load_attempt fns src True t = (res, t', issued) \<and> skel t' = skel s"
  using settled_rerun[OF assms] wf_pipeline by (simp add: load_attempt_def)

text \<open>
  C2: run the whole pipeline on the empty store, with the store reachable, and run it
  again on the result with the same files.  The second run ends as the first did
  (success, or the same failure), and leaves as many nodes of each kind and as many
  relationships of each kind as the first; no two relationships of a kind join the same
  ordered pair of nodes.
\<close>

theorem full_load_idempotent:
  assumes "load_attempt fns src True empty_store = (res1, s1, issued1)"
    and "load_attempt fns src True s1 = (res2, s2, issued2)"
  shows "res2 = res1 \<and> node_count s2 K = node_count s1 K \<and> edge_count s2 R = edge_count s1 R \<and>
         length (match_rels s2 R a b) \<le> 1"
proof -
  from attempt_settles[OF assms(1)] have "settled fns src pipeline s1 res1" .
  from attempt_rerun[OF this refl] assms(2) have r: "res2 = res1" and sk: "skel s2 = skel s1"
    by auto
  from load_attempt_no_parallel[OF assms(2) load_attempt_no_parallel[OF assms(1) no_parallel_empty]]
  have "no_parallel s2" .
  with r node_count_skel[OF sk] edge_count_skel[OF sk] no_parallel_match show ?thesis by simp
qed

theorem full_load_idempotent_witness:
  "fst (load_attempt sample_fns sample_sources True sample_store) = None \<and>
   map (node_count (fst (snd (load_attempt sample_fns sample_sources True sample_store))))
     [Hospital, Payer, Physician, Patient, Visit, Review] = [3, 1, 2, 1, 2, 1] \<and>
   map (node_count sample_store) [Hospital, Payer, Physician, Patient, Visit, Review] =
     [3, 1, 2, 1, 2, 1] \<and>
   map (edge_count (fst (snd (load_attempt sample_fns sample_sources True sample_store))))
     [HAS, AT, TREATS, COVERED_BY, WRITES, EMPLOYS] = [2, 2, 2, 1, 1, 2] \<and>
   map (edge_count sample_store) [HAS, AT, TREATS, COVERED_BY, WRITES, EMPLOYS] = [2, 2, 2, 1, 1, 2]"
proof -
  let ?a1 = "load_attempt sample_fns sample_sources True (empty_store :: (int \<times> nat) store)"
  let ?a2 = "load_attempt sample_fns sample_sources True sample_store"
  have 1: "?a1 = (fst ?a1, sample_store, snd (snd ?a1))" by (simp add: sample_store_def)
  have 2: "?a2 = (fst ?a2, fst (snd ?a2), snd (snd ?a2))" by simp
  have r1: "fst ?a1 = None" by (rule sample_run_ok)
  have c1: "map (node_count sample_store) [Hospital, Payer, Physician, Patient, Visit, Review] =
     [3, 1, 2, 1, 2, 1]"
    and c2: "map (edge_count sample_store) [HAS, AT, TREATS, COVERED_BY, WRITES, EMPLOYS] =
     [2, 2, 2, 1, 1, 2]"
    by code_simp+
  from full_load_idempotent[OF 1 2] r1 c1 c2 show ?thesis by simp
qed

section \<open>Failures that are never reported\<close>

lemma constraint_succeeds:
  "unique_ids s \<Longrightarrow> \<exists>s'. set_uniqueness_constraints L s = Inr s'"
  by (simp add: set_uniqueness_constraints_def unique_ids_def)

lemma run_stages_returns:
  fixes s :: "'f store"
  assumes "\<forall>x\<in>set xs. wf_stage x" "guarded C xs" "C \<subseteq> constraints s" "unique_ids s"
  shows "fst (run_stages fns src xs s) = None"
  using assms
proof (induction xs arbitrary: s C)
  case Nil
  then show ?case by simp
next
  case (Cons x xs)
  obtain res s' issued where run: "run_stages fns src (x # xs) s = (res, s', issued)"
    by (cases "run_stages fns src (x # xs) s") auto
  from run have "res = None"
  proof (cases rule: run_stages_Cons_cases)
    case (raised e)
    from raised(2) obtain L where "x = SetConstraint L" by (cases x) simp_all
    with raised(1) constraint_succeeds[OF Cons.prems(4), of L] show ?thesis by simp
  next
    case (continued s1 i2)
    have "\<exists>C'. unique_ids s1 \<and> guarded C' xs \<and> C' \<subseteq> constraints s1"
      using continued(1)
    proof
      assume "exec_stage fns src x s = Inr s1"
      from exec_stage_unique[OF this _ Cons.prems(2,3,4)] Cons.prems(1) show ?thesis by auto
    next
      assume "(\<exists>e. exec_stage fns src x s = Inl e) \<and> result_dropped x \<and> s1 = s"
      then have d: "result_dropped x" and s1: "s1 = s" by simp_all
      from d Cons.prems(2) have "guarded C xs" by (cases x) simp_all
      with s1 Cons.prems(3,4) show ?thesis by blast
    qed
    then obtain C' where "unique_ids s1" "guarded C' xs" "C' \<subseteq> constraints s1" by blast
    with Cons.IH[of C' s1] Cons.prems(1) have "fst (run_stages fns src xs s1) = None" by simp
    with continued(2) show ?thesis by simp
  qed
  with run show ?case by simp
qed

text \<open>
  On a store with unique identifiers (every store the job can leave), an attempt with the
  store reachable issues all the statements and returns normally, whatever the files
  hold; so the job is one call.
\<close>

lemma attempt_returns:
  fixes s :: "'f store"
  assumes "unique_ids s"
  shows "fst (load_attempt fns src True s) = None \<and>
         snd (snd (load_attempt fns src True s)) = pipeline"
proof -
  have "fst (run_stages fns src pipeline s) = None"
    by (rule run_stages_returns[OF _ guarded_pipeline _ assms]) (simp_all add: wf_pipeline)
  moreover obtain res s' issued where run: "run_stages fns src pipeline s = (res, s', issued)"
    by (cases "run_stages fns src pipeline s") auto
  ultimately have "res = None" by simp
  with run_stages_issued[OF run] have "issued = pipeline" by simp
  with run \<open>res = None\<close> show ?thesis by (simp add: load_attempt_def)
qed

lemma job_returns:
  fixes s :: "'f store"
  assumes "unique_ids s"
  shows "load_hospital_graph_from_csv fns src (\<lambda>k. True) s =
           (None, fst (snd (load_attempt fns src True s)), [Attempt 0])"
proof -
  obtain res s' issued where a: "load_attempt fns src True s = (res, s', issued)"
    by (cases "load_attempt fns src True s") auto
  with attempt_returns[OF assms, of fns src] have "res = None" by simp
  with a show ?thesis by (simp add: load_hospital_graph_from_csv_def numeral_3_eq_3)
qed

lemma label_determines_query:
  assumes "q \<in> set node_queries" "q' \<in> set node_queries" "nq_label q' = nq_label q"
  shows "q' = q"
proof -
  have "distinct (map nq_label node_queries)"
    by (simp add: node_queries_def hospital_nodes_def payer_nodes_def physician_nodes_def
        patient_nodes_def visit_nodes_def review_nodes_def)
  then have "inj_on nq_label (set node_queries)" by (simp add: distinct_map)
  from inj_onD[OF this assms(3) assms(2) assms(1)] show ?thesis .
qed

lemma node_count_view: "node_count s L = length (snd (kind_view s L))"
  by (simp add: node_count_def kind_view_def filter_map comp_def skel_node_def)

lemma exec_stage_node_count:
  fixes s :: "'f store"
  assumes "wf_stage x" "exec_stage fns src x s = Inr s'" "\<And>q. x = LoadNodes q \<Longrightarrow> nq_label q \<noteq> L"
  shows "node_count s' L = node_count s L"
proof (cases x)
  case (SetConstraint K)
  with assms(2) set_uniqueness_constraints_frame[of K s s'] show ?thesis
    by (simp add: node_count_def)
next
  case (LoadNodes q)
  with assms(3) have "\<not> touches L x" by simp
  from exec_stage_view[OF assms(1,2) this] show ?thesis by (simp add: node_count_view)
next
  case (LoadRels q)
  with assms(2) load_rels_frame[of fns src q s s'] show ?thesis by (simp add: node_count_def)
next
  case InferEmploys
  with assms(2) infer_employs_frame[of s s'] show ?thesis by (simp add: node_count_def)
qed

lemma id_first:
  "q \<in> set node_queries \<Longrightarrow> \<exists>e kes. nq_merge q = (''id'', e) # kes"
  by (auto simp: node_queries_def hospital_nodes_def payer_nodes_def physician_nodes_def
      patient_nodes_def visit_nodes_def review_nodes_def)

text \<open>
  C9: take any of the six node statements and a record of its file whose identifier
  column is missing, or holds text that \<^verbatim>\<open>toInteger\<close> does not parse.  Then the record
  itself is refused for its null \<^verbatim>\<open>id\<close> and the statement fails from every store (so it
  returns no store: nothing of its file is kept, and the record is not passed over).  But
  the failure is not reported: the run goes on with the statements after it, from the
  store as it was before the statement; and on the store left by any history of jobs,
  with the store reachable, the job returns normally after one call in which all the
  statements were issued and no node of that kind was added.
\<close>

theorem bad_identifier_not_reported:
  fixes fns :: "'f cypher"
  assumes "q \<in> set node_queries" and "r \<in> set (src (nq_label q))"
    and "map_of (nq_merge q) ''id'' = Some (ToInteger c)"
    and "r c = None \<or> (\<exists>s. r c = Some s \<and> toInteger fns s = None)"
  shows "node_row fns q r st = Inl (NullMergeProperty (nq_label q) ''id'') \<and>
         (\<exists>err. load_nodes fns src q st = Inl err) \<and>
         run_stages fns src (LoadNodes q # rest) st =
           (case run_stages fns src rest st of
              (res, st', issued) \<Rightarrow> (res, st', LoadNodes q # issued)) \<and>
         load_hospital_graph_from_csv fns src (\<lambda>k. True) (after_runs fns history empty_store) =
           (None, fst (snd (load_attempt fns src True (after_runs fns history empty_store))),
            [Attempt 0]) \<and>
         snd (snd (load_attempt fns src True (after_runs fns history empty_store))) = pipeline \<and>
         node_count (fst (snd (load_attempt fns src True (after_runs fns history empty_store))))
             (nq_label q) =
           node_count (after_runs fns history empty_store) (nq_label q)"
proof -
  let ?s0 = "after_runs fns history empty_store :: 'f store"
  from assms(3) have mem: "(''id'', ToInteger c) \<in> set (nq_merge q)" by (rule map_of_SomeD)
  from assms(4) have null: "eval_nexpr fns r (ToInteger c) = None"
    by (auto simp: eval_nexpr_def)
  from id_first[OF assms(1)] obtain e kes where first: "nq_merge q = (''id'', e) # kes" by blast
  with assms(3) have "e = ToInteger c" by simp
  with first null have row: "node_row fns q r st = Inl (NullMergeProperty (nq_label q) ''id'')"
    by (simp add: node_row_def eval_props_def)
  have fails: "\<exists>err. load_nodes fns src q s = Inl err" for s :: "'f store"
    unfolding load_nodes_def
    by (rule for_rows_fails[OF assms(2)]) (rule node_row_null[OF mem null])
  from fails[of st] obtain err where "load_nodes fns src q st = Inl err" by blast
  then have goes_on: "run_stages fns src (LoadNodes q # rest) st =
           (case run_stages fns src rest st of
              (res, st', issued) \<Rightarrow> (res, st', LoadNodes q # issued))"
    by simp
  have u: "unique_ids ?s0" by (rule after_runs_unique[OF unique_ids_empty])
  obtain res s' issued where a: "load_attempt fns src True ?s0 = (res, s', issued)"
    by (cases "load_attempt fns src True ?s0") auto
  then have run: "run_stages fns src pipeline ?s0 = (res, s', issued)"
    by (simp add: load_attempt_def)
  have "node_count s' (nq_label q) = node_count ?s0 (nq_label q)"
  proof (rule run_stages_invariant[where P = "\<lambda>u. node_count u (nq_label q) = node_count ?s0 (nq_label q)",
        OF run])
    show "node_count ?s0 (nq_label q) = node_count ?s0 (nq_label q)" by simp
    fix x and v v' :: "'f store"
    assume x: "x \<in> set pipeline" and v: "node_count v (nq_label q) = node_count ?s0 (nq_label q)"
      and ex: "exec_stage fns src x v = Inr v'"
    have "nq_label q' \<noteq> nq_label q" if xq: "x = LoadNodes q'" for q'
    proof
      assume l: "nq_label q' = nq_label q"
      from x xq have "q' \<in> set node_queries" by (auto simp: pipeline_def)
      from label_determines_query[OF assms(1) this l] xq ex fails[of v] show False by simp
    qed
    from exec_stage_node_count[OF wf_pipeline[OF x] ex this] v
    show "node_count v' (nq_label q) = node_count ?s0 (nq_label q)" by simp
  qed
  with a have count: "node_count (fst (snd (load_attempt fns src True ?s0))) (nq_label q) =
                      node_count ?s0 (nq_label q)"
    by simp
  from row fails[of st] goes_on job_returns[OF u, of fns src] attempt_returns[OF u, of fns src] count
  show ?thesis by blast
qed

theorem bad_identifier_not_reported_witness:
  "node_row sample_fns payer_nodes (map_of [(''payer_id'', ''n/a''), (''payer_name'', ''Cigna'')])
     (empty_store :: (int \<times> nat) store) = Inl (NullMergeProperty Payer ''id'') \<and>
   (\<exists>err. load_nodes sample_fns bad_payer payer_nodes (empty_store :: (int \<times> nat) store) = Inl err) \<and>
   fst (load_hospital_graph_from_csv sample_fns bad_payer (\<lambda>k. True)
          (empty_store :: (int \<times> nat) store)) = None \<and>
   snd (snd (load_hospital_graph_from_csv sample_fns bad_payer (\<lambda>k. True)
          (empty_store :: (int \<times> nat) store))) = [Attempt 0] \<and>
   snd (snd (load_attempt sample_fns bad_payer True (empty_store :: (int \<times> nat) store))) = pipeline \<and>
   map (node_count (fst (snd (load_attempt sample_fns bad_payer True
                                (empty_store :: (int \<times> nat) store)))))
     [Hospital, Payer, Physician, Patient, Visit, Review] = [3, 0, 2, 1, 2, 1] \<and>
   edge_count (fst (snd (load_attempt sample_fns bad_payer True
                           (empty_store :: (int \<times> nat) store)))) COVERED_BY = 0"
proof -
  let ?r = "map_of [(''payer_id'', ''n/a''), (''payer_name'', ''Cigna'')] :: row"
  let ?e = "empty_store :: (int \<times> nat) store"
  have 1: "payer_nodes \<in> set node_queries" by (simp add: node_queries_def)
  have 2: "?r \<in> set (bad_payer (nq_label payer_nodes))" by (simp add: payer_nodes_def bad_payer_def)
  have 3: "map_of (nq_merge payer_nodes) ''id'' = Some (ToInteger ''payer_id'')"
    by (simp add: payer_nodes_def)
  have 4: "?r ''payer_id'' = None \<or> (\<exists>s. ?r ''payer_id'' = Some s \<and> toInteger sample_fns s = None)"
    by (simp add: sample_fns_def read_int64_def read_int_def)
  have 5: "nq_label payer_nodes = Payer" by (simp add: payer_nodes_def)
  have 6: "after_runs sample_fns [] ?e = ?e" by (simp add: after_runs_def)
  have 7: "node_count ?e Payer = 0" by (simp add: node_count_def empty_store_def)
  have others: "map (node_count (fst (snd (load_attempt sample_fns bad_payer True ?e))))
     [Hospital, Physician, Patient, Visit, Review] = [3, 2, 1, 2, 1]"
    and edges: "edge_count (fst (snd (load_attempt sample_fns bad_payer True ?e))) COVERED_BY = 0"
    by code_simp+
  from bad_identifier_not_reported[where q = payer_nodes and r = ?r and src = bad_payer
      and fns = sample_fns and c = "''payer_id''" and st = ?e and rest = "[]"
      and history = "[]", OF 1 2 3 4, unfolded 5 6] 7 others edges
  show ?thesis by simp
qed

section \<open>The inferred relationships\<close>

lemma smod_30: "(x :: int) smod 30 = 0 \<longleftrightarrow> x mod 30 = 0"
proof -
  have "x smod 30 = sgn x * (\<bar>x\<bar> mod 30)" by (simp add: signed_modulo_int_def)
  moreover have "\<bar>x\<bar> mod 30 = 0 \<longleftrightarrow> x mod 30 = 0" by presburger
  moreover have "x = 0 \<Longrightarrow> x mod 30 = 0" by simp
  ultimately show ?thesis by (auto simp: sgn_if)
qed

lemma employs_rule_True:
  "employs_rule a b = Inr k \<Longrightarrow>
     k \<longleftrightarrow> (case (a, b) of (Some (IntV x), Some (IntV y)) \<Rightarrow> (sint x + sint y) mod 30 = 0 | _ \<Rightarrow> False)"
  by (cases "(a, b)" rule: employs_rule.cases)
    (auto simp: smod_30 split: nval.splits option.splits if_splits)

lemma where_employs_Inr:
  assumes "where_employs s phs = Inr keep"
  shows "keep = filter (\<lambda>(p, h). employs_rule (nprops (nodes s ! p) ''id'')
                                   (nprops (nodes s ! h) ''id'') = Inr True) phs"
  using assms
proof (induction phs arbitrary: keep)
  case Nil
  then show ?case by simp
next
  case (Cons ph phs)
  obtain p h where ph: "ph = (p, h)" by (cases ph)
  from Cons.prems ph obtain k rest where
    k: "employs_rule (nprops (nodes s ! p) ''id'') (nprops (nodes s ! h) ''id'') = Inr k"
    and rest: "where_employs s phs = Inr rest"
    and keep: "keep = (if k then (p, h) # rest else rest)"
    by (auto split: sum.splits)
  from Cons.IH[OF rest] k keep ph show ?case by (cases k) simp_all
qed

lemma where_employs_defined:
  assumes "where_employs s phs = Inr keep" "(p, h) \<in> set phs"
  shows "\<exists>k. employs_rule (nprops (nodes s ! p) ''id'') (nprops (nodes s ! h) ''id'') = Inr k"
  using assms
proof (induction phs arbitrary: keep)
  case Nil
  then show ?case by simp
next
  case (Cons ph phs)
  obtain p' h' where ph: "ph = (p', h')" by (cases ph)
  from Cons.prems(1) ph obtain k rest where
    k: "employs_rule (nprops (nodes s ! p') ''id'') (nprops (nodes s ! h') ''id'') = Inr k"
    and rest: "where_employs s phs = Inr rest"
    by (auto split: sum.splits)
  show ?case
  proof (cases "(p, h) = (p', h')")
    case True
    with k show ?thesis by auto
  next
    case False
    with Cons.prems(2) ph have "(p, h) \<in> set phs" by auto
    from Cons.IH[OF rest this] show ?thesis .
  qed
qed

lemma candidates_set:
  "(p, h) \<in> set (List.product (match_nodes s L []) (match_nodes s L' [])) \<longleftrightarrow>
     p < length (nodes s) \<and> h < length (nodes s) \<and>
     nlabel (nodes s ! p) = L \<and> nlabel (nodes s ! h) = L'"
  by (auto simp: match_nodes_def node_matches_def)

lemma where_employs_pairs:
  assumes "where_employs s (List.product (match_nodes s Physician []) (match_nodes s Hospital [])) = Inr keep"
  shows "(p, h) \<in> set keep \<longleftrightarrow> employs_pair s p h"
proof -
  let ?c = "List.product (match_nodes s Physician []) (match_nodes s Hospital [])"
  have mem: "(p, h) \<in> set keep \<longleftrightarrow>
          (p, h) \<in> set ?c \<and>
          employs_rule (nprops (nodes s ! p) ''id'') (nprops (nodes s ! h) ''id'') = Inr True"
    by (subst where_employs_Inr[OF assms]) (simp del: set_product)
  show ?thesis
  proof (cases "(p, h) \<in> set ?c")
    case True
    from where_employs_defined[OF assms True] obtain k where
      k: "employs_rule (nprops (nodes s ! p) ''id'') (nprops (nodes s ! h) ''id'') = Inr k" by blast
    from employs_rule_True[OF k] k mem True show ?thesis
      unfolding candidates_set employs_pair_def by simp
  next
    case False
    with mem show ?thesis unfolding candidates_set employs_pair_def by blast
  qed
qed

lemma pairs_absorbed_mem:
  "pairs_absorbed s t pairs \<Longrightarrow> (a, b) \<in> set pairs \<Longrightarrow> match_rels s t a b \<noteq> []"
  by (auto simp: pairs_absorbed_def list_all_iff)

lemma absorbed_employs_pair:
  assumes "absorbed fns src InferEmploys s" "employs_pair s p h"
  shows "match_rels s EMPLOYS p h \<noteq> []"
proof -
  from assms(1) obtain keep where
    w: "where_employs s (List.product (match_nodes s Physician []) (match_nodes s Hospital [])) = Inr keep"
    and a: "pairs_absorbed s EMPLOYS keep"
    by (auto split: sum.splits)
  from where_employs_pairs[OF w] assms(2) have "(p, h) \<in> set keep" by simp
  from pairs_absorbed_mem[OF a this] show ?thesis .
qed

lemma employs_sound_match:
  assumes "employs_sound s" "match_rels s EMPLOYS p h \<noteq> []"
  shows "employs_pair s p h"
proof -
  from assms(2) obtain j where "j \<in> set (match_rels s EMPLOYS p h)" by (auto simp: nonempty_conv)
  then have j: "j < length (rels s)" "rel_matches (rels s ! j) EMPLOYS p h"
    by (simp_all add: match_rels_def)
  then have "rels s ! j \<in> set (rels s)" by simp
  with assms(1) j(2) show ?thesis
    by (auto simp: employs_sound_def list_all_iff rel_matches_def)
qed

lemma employs_pair_grows:
  assumes "grows s s'" "employs_pair s p h"
  shows "employs_pair s' p h"
proof -
  from assms(2) have p: "p < length (nodes s)" and h: "h < length (nodes s)"
    by (simp_all add: employs_pair_def)
  from grows_node[OF assms(1) p] have p': "p < length (nodes s')"
    and sp: "skel_node (nodes s' ! p) = skel_node (nodes s ! p)" by simp_all
  from grows_node[OF assms(1) h] have h': "h < length (nodes s')"
    and sh: "skel_node (nodes s' ! h) = skel_node (nodes s ! h)" by simp_all
  from skel_node_label[OF sp] skel_node_label[OF sh]
    skel_node_prop[OF sp, of "''id''"] skel_node_prop[OF sh, of "''id''"] p' h' assms(2)
  show ?thesis by (simp add: employs_pair_def)
qed

lemma employs_sound_rels:
  "employs_sound s \<longleftrightarrow>
     (\<forall>x\<in>set (map skel_rel (rels s)). fst x = EMPLOYS \<longrightarrow> employs_pair s (fst (snd x)) (snd (snd x)))"
  by (auto simp: employs_sound_def list_all_iff skel_rel_def)

lemma employs_sound_grows:
  assumes "grows s s'" "map skel_rel (rels s') = map skel_rel (rels s)" "employs_sound s"
  shows "employs_sound s'"
  using assms(3) employs_pair_grows[OF assms(1)]
  unfolding employs_sound_rels assms(2) by blast

lemma employs_sound_skel:
  fixes s t :: "'f store"
  assumes "skel s = skel t" "employs_sound s"
  shows "employs_sound t"
  using assms(1) by (intro employs_sound_grows[OF grows_skel[OF assms(1)] _ assms(2)])
    (simp add: skel_eq_iff)

lemma employs_pair_nodes: "nodes s' = nodes s \<Longrightarrow> employs_pair s' p h = employs_pair s p h"
  by (simp add: employs_pair_def)

lemma merge_rel_sound:
  assumes "employs_sound s" "t \<noteq> EMPLOYS \<or> employs_pair s a b"
  shows "employs_sound (fst (merge_rel t a b s))"
  using merge_rel_cases[of s t a b]
proof
  assume "match_rels s t a b \<noteq> [] \<and> merge_rel t a b s = (s, match_rels s t a b)"
  with assms(1) show ?thesis by simp
next
  let ?s' = "s\<lparr>rels := rels s @ [\<lparr>rkind = t, rsrc = a, rdst = b, rprops = Map.empty\<rparr>]\<rparr>"
  assume "match_rels s t a b = [] \<and> merge_rel t a b s = (?s', [length (rels s)])"
  then have m: "fst (merge_rel t a b s) = ?s'" by simp
  have n: "nodes ?s' = nodes s" by simp
  from assms show ?thesis
    unfolding m employs_sound_def by (auto simp: employs_pair_nodes[OF n] list_all_iff)
qed

lemma merge_set_rel_sound:
  fixes s :: "'f store"
  assumes "employs_sound s" "rq_kind q \<noteq> EMPLOYS"
  shows "employs_sound (merge_set_rel fns q r ab s)"
  using employs_sound_skel[OF merge_set_rel_skel[symmetric]] merge_rel_sound[OF assms(1)] assms(2)
  by blast

lemma node_row_sound:
  fixes s :: "'f store"
  assumes "wf_nq q" "employs_sound s" "node_row fns q r s = Inr s'"
  shows "employs_sound s'"
proof -
  from node_row_skel[OF assms(1,3)] obtain pat s1 ms where
    m: "merge_node (nq_label q) pat s = Inr (s1, ms)" and sk: "skel s' = skel s1" by blast
  from merge_node_rels[OF m] have "map skel_rel (rels s1) = map skel_rel (rels s)" by simp
  from employs_sound_grows[OF merge_node_grows[OF m] this assms(2)] have "employs_sound s1" .
  from employs_sound_skel[OF sk[symmetric] this] show ?thesis .
qed

lemma infer_employs_sound:
  assumes "employs_sound s" "infer_employs s = Inr s'"
  shows "employs_sound s'"
proof -
  let ?c = "List.product (match_nodes s Physician []) (match_nodes s Hospital [])"
  from assms(2) obtain keep where w: "where_employs s ?c = Inr keep"
    and s': "s' = fold (\<lambda>(p, h) s. fst (merge_rel EMPLOYS p h s)) keep s"
    by (auto simp: infer_employs_def split: sum.splits)
  have pairs: "employs_pair s p h" if "(p, h) \<in> set keep" for p h
    using where_employs_pairs[OF w] that by simp
  have "employs_sound (fold (\<lambda>(p, h) s. fst (merge_rel EMPLOYS p h s)) phs u) \<and>
        nodes (fold (\<lambda>(p, h) s. fst (merge_rel EMPLOYS p h s)) phs u) = nodes s"
    if "set phs \<subseteq> set keep" "employs_sound u" "nodes u = nodes s" for phs u
    using that
  proof (induction phs arbitrary: u)
    case Nil
    then show ?case by simp
  next
    case (Cons ph phs)
    obtain p h where ph: "ph = (p, h)" by (cases ph)
    with Cons.prems(1) pairs have "employs_pair s p h" by simp
    with employs_pair_nodes[OF Cons.prems(3)] have "employs_pair u p h" by simp
    from merge_rel_sound[OF Cons.prems(2), of EMPLOYS p h] this
    have 1: "employs_sound (fst (merge_rel EMPLOYS p h u))" by simp
    have 2: "nodes (fst (merge_rel EMPLOYS p h u)) = nodes s" using Cons.prems(3) by simp
    from Cons.IH[OF _ 1 2] Cons.prems(1) ph show ?case by simp
  qed
  from this[of keep s] assms(1) show ?thesis unfolding s' by simp
qed

lemma exec_stage_sound:
  fixes s :: "'f store"
  assumes "wf_stage x" "employs_sound s" "exec_stage fns src x s = Inr s'"
  shows "employs_sound s'"
proof (cases x)
  case (SetConstraint L)
  with assms(3) have "s' = s \<or> s' = s\<lparr>constraints := insert L (constraints s)\<rparr>"
    by (auto simp: set_uniqueness_constraints_def split: if_splits)
  then have n: "nodes s' = nodes s" and r: "rels s' = rels s" by auto
  from assms(2) show ?thesis by (simp add: employs_sound_def employs_pair_nodes[OF n] r)
next
  case (LoadNodes q)
  with assms(1) have wf: "wf_nq q" by simp
  from assms(3) LoadNodes have "for_rows (node_row fns q) (src (nq_label q)) s = Inr s'"
    by (simp add: load_nodes_def)
  from for_rows_invariant[where P = employs_sound, OF this assms(2)] node_row_sound[OF wf]
  show ?thesis by blast
next
  case (LoadRels q)
  with assms(1) have k: "rq_kind q \<noteq> EMPLOYS" by (simp add: wf_rq_def)
  have row: "employs_sound u'" if "employs_sound u" "rel_row fns q r u = Inr u'"
    for r and u u' :: "'f store"
  proof -
    from that(2) have u': "u' = fold (merge_set_rel fns q r)
      (List.product (match_endpoint fns r u (rq_from q)) (match_endpoint fns r u (rq_to q))) u"
      by (simp add: rel_row_result)
    show ?thesis unfolding u'
      by (rule fold_invariant[where P = employs_sound, OF that(1)])
        (rule merge_set_rel_sound[OF _ k])
  qed
  from assms(3) LoadRels have "for_rows (rel_row fns q) (src (rq_file q)) s = Inr s'"
    by (simp add: load_rels_def)
  from for_rows_invariant[where P = employs_sound, OF this assms(2)] row
  show ?thesis by blast
next
  case InferEmploys
  with assms infer_employs_sound[of s s'] show ?thesis by simp
qed

lemma load_attempt_sound:
  fixes s :: "'f store"
  assumes "load_attempt fns src up s = (res, s', issued)" "employs_sound s"
  shows "employs_sound s'"
proof (cases up)
  case True
  with assms(1) have run: "run_stages fns src pipeline s = (res, s', issued)"
    by (simp add: load_attempt_def)
  show ?thesis
    by (rule run_stages_invariant[where P = employs_sound, OF run assms(2)])
      (rule exec_stage_sound[OF wf_pipeline])
next
  case False
  with assms show ?thesis by (simp add: load_attempt_def)
qed

lemma job_sound:
  fixes s :: "'f store"
  assumes "employs_sound s"
  shows "employs_sound (fst (snd (load_hospital_graph_from_csv fns src up s)))"
proof -
  obtain res s' tr where job: "load_hospital_graph_from_csv fns src up s = (res, s', tr)"
    by (cases "load_hospital_graph_from_csv fns src up s")
  have "employs_sound s'"
  proof (rule retry_invariant[where P = employs_sound, OF job[unfolded load_hospital_graph_from_csv_def] assms])
    fix k r and u u' :: "'f store"
    assume "employs_sound u"
      and "(case load_attempt fns src (up k) u of (res, s', issued) \<Rightarrow> (res, s')) = (r, u')"
    then show "employs_sound u'"
      using load_attempt_sound[of fns src "up k" u] by (auto split: prod.splits)
  qed
  with job show ?thesis by simp
qed

lemma after_runs_sound:
  fixes s :: "'f store"
  shows "employs_sound s \<Longrightarrow> employs_sound (after_runs fns history s)"
  unfolding after_runs_def
  by (induction history arbitrary: s) (auto simp: job_sound)

lemma employs_sound_empty: "employs_sound empty_store"
  by (simp add: employs_sound_def empty_store_def)

lemma job_no_parallel:
  fixes s :: "'f store"
  assumes "no_parallel s"
  shows "no_parallel (fst (snd (load_hospital_graph_from_csv fns src up s)))"
proof -
  obtain res s' tr where job: "load_hospital_graph_from_csv fns src up s = (res, s', tr)"
    by (cases "load_hospital_graph_from_csv fns src up s")
  have "no_parallel s'"
  proof (rule retry_invariant[where P = no_parallel, OF job[unfolded load_hospital_graph_from_csv_def] assms])
    fix k r and u u' :: "'f store"
    assume "no_parallel u"
      and "(case load_attempt fns src (up k) u of (res, s', issued) \<Rightarrow> (res, s')) = (r, u')"
    then show "no_parallel u'"
      using load_attempt_no_parallel[of fns src "up k" u] by (auto split: prod.splits)
  qed
  with job show ?thesis by simp
qed

lemma after_runs_no_parallel:
  fixes s :: "'f store"
  shows "no_parallel s \<Longrightarrow> no_parallel (after_runs fns history s)"
  unfolding after_runs_def
  by (induction history arbitrary: s) (auto simp: job_no_parallel)

section \<open>The job as a whole\<close>

lemma retry_settled:
  assumes "\<And>k u. R u \<Longrightarrow> \<exists>u'. f k u = (res, u') \<and> R u'" "R u"
  shows "\<exists>u' tr. retry (Suc n) d b j f k u = (res, u', tr) \<and> R u'"
  using assms(2)
proof (induction n arbitrary: d k u)
  case 0
  from assms(1)[OF 0, of k] obtain u' where "f k u = (res, u')" "R u'" by blast
  then show ?case by (cases res) simp_all
next
  case (Suc n)
  from assms(1)[OF Suc.prems, of k] obtain u1 where f: "f k u = (res, u1)" "R u1" by blast
  show ?case
  proof (cases res)
    case None
    with f show ?thesis by simp
  next
    case (Some e)
    from Suc.IH[OF f(2), of "d * b + j" "Suc k"] obtain u' tr
      where "retry (Suc n) (d * b + j) b j f (Suc k) u1 = (res, u', tr)" "R u'" by blast
    with f Some show ?thesis by simp
  qed
qed



lemma job_rerun:
  fixes s t :: "'f store"
  assumes "settled fns src pipeline s res" "skel t = skel s"
  shows "\<exists>t' tr. load_hospital_graph_from_csv fns src (\<lambda>k. True) t = (res, t', tr) \<and>
           skel t' = skel s"
  unfolding load_hospital_graph_from_csv_def numeral_3_eq_3
proof (rule retry_settled[where R = "\<lambda>u. skel u = skel s", OF _ assms(2)])
  fix k and u :: "'f store"
  assume "skel u = skel s"
  from attempt_rerun[OF assms(1) this]
  show "\<exists>u'. (case load_attempt fns src True u of (res, s', issued) \<Rightarrow> (res, s')) = (res, u') \<and>
          skel u' = skel s"
    by auto
qed

lemma job_settles:
  fixes s0 :: "'f store"
  assumes "load_hospital_graph_from_csv fns src (\<lambda>k. True) s0 = (res, s1, tr)"
  shows "\<exists>s. settled fns src pipeline s res \<and> skel s1 = skel s"
proof -
  obtain r s i where a: "load_attempt fns src True s0 = (r, s, i)"
    by (cases "load_attempt fns src True s0")
  note st = attempt_settles[OF a]
  show ?thesis
  proof (cases r)
    case None
    with a assms have "res = None" "s1 = s"
      by (simp_all add: load_hospital_graph_from_csv_def numeral_3_eq_3)
    with st None show ?thesis by auto
  next
    case (Some e)
    have "\<exists>u' tr'. retry (Suc (Suc 0)) (10 * 1 + 0) 1 0
            (\<lambda>k s. case load_attempt fns src True s of (res, s', issued) \<Rightarrow> (res, s'))
            (Suc 0) s = (r, u', tr') \<and> skel u' = skel s"
    proof (rule retry_settled[where R = "\<lambda>u. skel u = skel s"])
      fix k and u :: "'f store"
      assume "skel u = skel s"
      from attempt_rerun[OF st this]
      show "\<exists>u'. (case load_attempt fns src True u of (res, s', issued) \<Rightarrow> (res, s')) = (r, u') \<and>
              skel u' = skel s"
        by auto
    qed simp
    then obtain u' tr' where
      "retry (Suc (Suc 0)) (10 * 1 + 0) 1 0
         (\<lambda>k s. case load_attempt fns src True s of (res, s', issued) \<Rightarrow> (res, s'))
         (Suc 0) s = (r, u', tr')" "skel u' = skel s" by blast
    with a Some assms have "res = r" "s1 = u'"
      by (simp_all add: load_hospital_graph_from_csv_def numeral_3_eq_3)
    with st \<open>skel u' = skel s\<close> show ?thesis by auto
  qed
qed

text \<open>
  The same for the decorated job, with the store reachable throughout: a second job on
  the store the first one left ends as the first did and changes no count.
\<close>

lemma job_idempotent:
  fixes s0 :: "'f store"
  assumes "load_hospital_graph_from_csv fns src (\<lambda>k. True) s0 = (res1, s1, tr1)"
    and "load_hospital_graph_from_csv fns src (\<lambda>k. True) s1 = (res2, s2, tr2)"
  shows "res2 = res1 \<and> node_count s2 K = node_count s1 K \<and> edge_count s2 R = edge_count s1 R"
proof -
  from job_settles[OF assms(1)] obtain s where s: "settled fns src pipeline s res1" "skel s1 = skel s"
    by blast
  from job_rerun[OF s] assms(2) have "res2 = res1" "skel s2 = skel s" by auto
  with s(2) have "res2 = res1" "skel s2 = skel s1" by simp_all
  with node_count_skel[of s2 s1 K] edge_count_skel[of s2 s1 R] show ?thesis by simp
qed

section \<open>Identifiers are integers\<close>

lemma int_ids_nodes:
  "int_ids s \<longleftrightarrow>
     list_all (\<lambda>p. case snd p ''id'' of Some (StrV x) \<Rightarrow> False | _ \<Rightarrow> True)
       (map skel_node (nodes s))"
  by (simp add: int_ids_def list_all_iff skel_node_def)

lemma int_ids_skel:
  fixes s t :: "'f store"
  shows "skel s = skel t \<Longrightarrow> int_ids s = int_ids t"
  by (simp add: int_ids_nodes skel_eq_iff)

lemma resolve_mem:
  "resolve kvs = Inr pat \<Longrightarrow> (k, v) \<in> set pat \<Longrightarrow> (k, Some v) \<in> set kvs"
proof (induction kvs arbitrary: pat rule: resolve.induct)
  case (3 k' v' kvs)
  then show ?case by (auto split: sum.splits)
qed auto

lemma merged_id_int:
  assumes "wf_nq q" "resolve (eval_props (eval_nexpr fns r) (nq_merge q)) = Inr pat"
    "map_of pat ''id'' = Some v"
  shows "\<exists>x. v = IntV x"
proof -
  from assms(3) have "(''id'', v) \<in> set pat" by (rule map_of_SomeD)
  from resolve_mem[OF assms(2) this] obtain e where e: "(''id'', e) \<in> set (nq_merge q)"
    and ev: "eval_nexpr fns r e = Some v"
    by (auto simp: eval_props_def)
  from assms(1) have "\<forall>x\<in>set (nq_merge q).
      case x of (k, e) \<Rightarrow> k = ''id'' \<longrightarrow> (case e of ToInteger c \<Rightarrow> True | Col c \<Rightarrow> False)"
    by (simp add: wf_nq_def list_all_iff)
  from bspec[OF this e] obtain c where "e = ToInteger c"
    by (cases e) simp_all
  with ev show ?thesis by (auto simp: eval_nexpr_def split: option.splits)
qed

lemma node_row_int:
  fixes s :: "'f store"
  assumes "wf_nq q" "int_ids s" "node_row fns q r s = Inr s'"
  shows "int_ids s'"
proof -
  from node_row_skel[OF assms(1,3)] obtain pat s1 ms where
    p: "resolve (eval_props (eval_nexpr fns r) (nq_merge q)) = Inr pat"
    and m: "merge_node (nq_label q) pat s = Inr (s1, ms)" and sk: "skel s' = skel s1" by blast
  have "int_ids s1"
    using merge_node_cases[OF m]
  proof
    assume "ms = match_nodes s (nq_label q) pat \<and> ms \<noteq> [] \<and> s1 = s"
    with assms(2) show ?thesis by simp
  next
    assume "match_nodes s (nq_label q) pat = [] \<and> create_node (nq_label q) pat s = Inr s1 \<and>
      ms = [length (nodes s)]"
    then have s1: "s1 = s\<lparr>nodes := nodes s @ [\<lparr>nlabel = nq_label q, nprops = map_of pat\<rparr>]\<rparr>"
      using create_node_cases(1) by blast
    from merged_id_int[OF assms(1) p] have
      "case map_of pat ''id'' of Some (StrV x) \<Rightarrow> False | _ \<Rightarrow> True"
      by (auto split: option.splits nval.splits)
    with assms(2) show ?thesis by (simp add: s1 int_ids_def)
  qed
  with int_ids_skel[OF sk] show ?thesis by simp
qed

lemma exec_stage_int:
  fixes s :: "'f store"
  assumes "wf_stage x" "int_ids s" "exec_stage fns src x s = Inr s'"
  shows "int_ids s'"
proof (cases x)
  case (SetConstraint L)
  with assms(3) set_uniqueness_constraints_frame[of L s s'] assms(2) show ?thesis
    by (simp add: int_ids_def)
next
  case (LoadNodes q)
  with assms(1) have wf: "wf_nq q" by simp
  from assms(3) LoadNodes have "for_rows (node_row fns q) (src (nq_label q)) s = Inr s'"
    by (simp add: load_nodes_def)
  from for_rows_invariant[where P = int_ids, OF this assms(2)] node_row_int[OF wf]
  show ?thesis by blast
next
  case (LoadRels q)
  with assms(3) load_rels_frame[of fns src q s s'] assms(2) show ?thesis
    by (simp add: int_ids_def)
next
  case InferEmploys
  with assms(3) infer_employs_frame[of s s'] assms(2) show ?thesis
    by (simp add: int_ids_def)
qed

lemma load_attempt_int:
  fixes s :: "'f store"
  assumes "load_attempt fns src up s = (res, s', issued)" "int_ids s"
  shows "int_ids s'"
proof (cases up)
  case True
  with assms(1) have run: "run_stages fns src pipeline s = (res, s', issued)"
    by (simp add: load_attempt_def)
  show ?thesis
    by (rule run_stages_invariant[where P = int_ids, OF run assms(2)])
      (rule exec_stage_int[OF wf_pipeline])
next
  case False
  with assms show ?thesis by (simp add: load_attempt_def)
qed

lemma job_int:
  fixes s :: "'f store"
  assumes "int_ids s"
  shows "int_ids (fst (snd (load_hospital_graph_from_csv fns src up s)))"
proof -
  obtain res s' tr where job: "load_hospital_graph_from_csv fns src up s = (res, s', tr)"
    by (cases "load_hospital_graph_from_csv fns src up s")
  have "int_ids s'"
  proof (rule retry_invariant[where P = int_ids, OF job[unfolded load_hospital_graph_from_csv_def] assms])
    fix k r and u u' :: "'f store"
    assume "int_ids u"
      and "(case load_attempt fns src (up k) u of (res, s', issued) \<Rightarrow> (res, s')) = (r, u')"
    then show "int_ids u'"
      using load_attempt_int[of fns src "up k" u] by (auto split: prod.splits)
  qed
  with job show ?thesis by simp
qed

lemma after_runs_int:
  fixes s :: "'f store"
  shows "int_ids s \<Longrightarrow> int_ids (after_runs fns history s)"
  unfolding after_runs_def
  by (induction history arbitrary: s) (auto simp: job_int)

lemma int_ids_empty: "int_ids empty_store"
  by (simp add: int_ids_def empty_store_def)

lemma employs_rule_int:
  assumes "case a of Some (StrV x) \<Rightarrow> False | _ \<Rightarrow> True"
    "case b of Some (StrV x) \<Rightarrow> False | _ \<Rightarrow> True"
    "case (a, b) of (Some (IntV x), Some (IntV y)) \<Rightarrow> in_range (sint x + sint y) | _ \<Rightarrow> True"
  shows "\<exists>keep. employs_rule a b = Inr keep"
  using assms by (cases "(a, b)" rule: employs_rule.cases) auto

lemma where_employs_int:
  assumes "int_ids s" "\<forall>(p, h)\<in>set phs. p < length (nodes s) \<and> h < length (nodes s)"
    and "list_all
       (\<lambda>(p, h). case (nprops (nodes s ! p) ''id'', nprops (nodes s ! h) ''id'') of
                    (Some (IntV x), Some (IntV y)) \<Rightarrow> in_range (sint x + sint y)
                  | _ \<Rightarrow> True) phs"
  shows "\<exists>keep. where_employs s phs = Inr keep"
  using assms(2,3)
proof (induction phs)
  case Nil
  show ?case by simp
next
  case (Cons ph phs)
  obtain p h where ph: "ph = (p, h)" by (cases ph)
  with Cons.prems(1) have p: "nodes s ! p \<in> set (nodes s)" and h: "nodes s ! h \<in> set (nodes s)"
    by auto
  with assms(1) have "case nprops (nodes s ! p) ''id'' of Some (StrV x) \<Rightarrow> False | _ \<Rightarrow> True"
    and "case nprops (nodes s ! h) ''id'' of Some (StrV x) \<Rightarrow> False | _ \<Rightarrow> True"
    by (auto simp: int_ids_def list_all_iff)
  moreover from Cons.prems(2) ph
  have "case (nprops (nodes s ! p) ''id'', nprops (nodes s ! h) ''id'') of
          (Some (IntV x), Some (IntV y)) \<Rightarrow> in_range (sint x + sint y) | _ \<Rightarrow> True"
    by simp
  ultimately obtain k where
    "employs_rule (nprops (nodes s ! p) ''id'') (nprops (nodes s ! h) ''id'') = Inr k"
    using employs_rule_int by blast
  moreover from Cons obtain rest where "where_employs s phs = Inr rest" by auto
  ultimately show ?case using ph by simp
qed

text \<open>
  The identifiers the node statements write are integers, so the inference can only fail
  by a sum that leaves the 64-bit range.
\<close>

lemma infer_employs_int:
  assumes "int_ids s" "sums_in_range s"
  shows "\<exists>s'. infer_employs s = Inr s'"
  using where_employs_int[OF assms(1) candidates_bound, of Physician Hospital] assms(2)
  by (auto simp: infer_employs_def sums_in_range_def)



section \<open>The inferred relationships after a run\<close>

lemma settled_member:
  assumes "settled fns src xs s None" "x \<in> set xs"
  shows "absorbed fns src x s \<or> (result_dropped x \<and> isl (exec_stage fns src x s))"
  using assms by (induction xs) (auto split: if_splits)

text \<open>
  C4, as the code has it: after a run of the pipeline that returns normally, on the store
  left by any history of jobs from the empty store, and when no sum of the identifiers of
  a Physician node and a Hospital node leaves the 64-bit range, an EMPLOYS relationship
  joins nodes \<open>p\<close> and \<open>h\<close> exactly when \<open>p\<close> is a Physician, \<open>h\<close> a Hospital and their
  identifiers add up to a multiple of 30; there is at most one such relationship per
  pair; and evaluating the inference again on that store gives the same store.
\<close>

theorem employs_exactly_in_range:
  assumes "load_attempt fns src True (after_runs fns history empty_store) = (None, s, issued)"
    and "sums_in_range s"
  shows "(match_rels s EMPLOYS p h \<noteq> [] \<longleftrightarrow> employs_pair s p h) \<and>
         length (match_rels s EMPLOYS p h) \<le> 1 \<and>
         infer_employs s = Inr s"
proof -
  have "employs_sound (after_runs fns history empty_store)"
    by (rule after_runs_sound[OF employs_sound_empty])
  from load_attempt_sound[OF assms(1) this] have sound: "employs_sound s" .
  from load_attempt_int[OF assms(1) after_runs_int[OF int_ids_empty]] have "int_ids s" .
  from infer_employs_int[OF this assms(2)] obtain s' where "infer_employs s = Inr s'" by blast
  then have ok: "\<not> isl (exec_stage fns src InferEmploys s)" by simp
  have "InferEmploys \<in> set pipeline" by (simp add: pipeline_def)
  from settled_member[OF attempt_settles[OF assms(1)] this] ok
  have ab: "absorbed fns src InferEmploys s" by blast
  have "no_parallel (after_runs fns history empty_store)"
    by (rule after_runs_no_parallel[OF no_parallel_empty])
  from load_attempt_no_parallel[OF assms(1) this] have "no_parallel s" .
  from no_parallel_match[OF this, of EMPLOYS p h] infer_employs_fixed[OF ab]
    absorbed_employs_pair[OF ab, of p h] employs_sound_match[OF sound, of p h]
  show ?thesis by blast
qed

theorem employs_exactly_in_range_witness:
  "sums_in_range sample_store \<and>
   employs_pair sample_store 5 1 \<and> match_rels sample_store EMPLOYS 5 1 \<noteq> [] \<and>
   \<not> employs_pair sample_store 4 0 \<and> match_rels sample_store EMPLOYS 4 0 = [] \<and>
   map (\<lambda>i. nprops (nodes sample_store ! i) ''id'') [5, 1, 4, 0] =
     [Some (IntV 12), Some (IntV 18), Some (IntV 3), Some (IntV 9)] \<and>
   infer_employs sample_store = Inr sample_store"
proof -
  let ?a = "load_attempt sample_fns sample_sources True (empty_store :: (int \<times> nat) store)"
  have run: "load_attempt sample_fns sample_sources True (after_runs sample_fns [] empty_store) =
               (None, sample_store, snd (snd ?a))"
    using sample_run_ok by (simp add: after_runs_def sample_store_def prod_eq_iff)
  have rng: "sums_in_range sample_store"
    and yes: "employs_pair sample_store 5 1" and no: "\<not> employs_pair sample_store 4 0"
    and ids: "map (\<lambda>i. nprops (nodes sample_store ! i) ''id'') [5, 1, 4, 0] =
                [Some (IntV 12), Some (IntV 18), Some (IntV 3), Some (IntV 9)]"
    by code_simp+
  from employs_exactly_in_range[OF run rng, of 5 1] employs_exactly_in_range[OF run rng, of 4 0]
    yes no ids rng
  show ?thesis by simp
qed

text \<open>
  C4 as stated fails when a sum leaves the range.  With a physician 9223372036854775807
  and a hospital 23 in the files, the run on the empty store returns normally; the two
  identifiers add up to a multiple of 30, and so do those of physician 12 and hospital
  18; the inference fails on the overflow and no EMPLOYS relationship exists.
\<close>

theorem employs_overflow:
  "fst (load_attempt sample_fns overflow_sources True (after_runs sample_fns [] empty_store)) = None \<and>
   overflow_store =
     fst (snd (load_attempt sample_fns overflow_sources True (after_runs sample_fns [] empty_store))) \<and>
   map (\<lambda>i. (nlabel (nodes overflow_store ! i), nprops (nodes overflow_store ! i) ''id'')) [7, 3, 6, 1] =
     [(Physician, Some (IntV 9223372036854775807)), (Hospital, Some (IntV 23)),
      (Physician, Some (IntV 12)), (Hospital, Some (IntV 18))] \<and>
   employs_pair overflow_store 7 3 \<and> match_rels overflow_store EMPLOYS 7 3 = [] \<and>
   employs_pair overflow_store 6 1 \<and> match_rels overflow_store EMPLOYS 6 1 = [] \<and>
   edge_count overflow_store EMPLOYS = 0 \<and>
   isl (infer_employs overflow_store) \<and> projl (infer_employs overflow_store) = ArithmeticOverflow"
proof -
  have a: "after_runs sample_fns [] (empty_store :: (int \<times> nat) store) = empty_store"
    by (simp add: after_runs_def)
  have "fst (load_attempt sample_fns overflow_sources True (empty_store :: (int \<times> nat) store)) = None"
    by code_simp
  moreover have
   "map (\<lambda>i. (nlabel (nodes overflow_store ! i), nprops (nodes overflow_store ! i) ''id'')) [7, 3, 6, 1] =
     [(Physician, Some (IntV 9223372036854775807)), (Hospital, Some (IntV 23)),
      (Physician, Some (IntV 12)), (Hospital, Some (IntV 18))]"
    by code_simp
  moreover have "employs_pair overflow_store 7 3" "match_rels overflow_store EMPLOYS 7 3 = []"
    "employs_pair overflow_store 6 1" "match_rels overflow_store EMPLOYS 6 1 = []"
    "edge_count overflow_store EMPLOYS = 0"
    "isl (infer_employs overflow_store)" "projl (infer_employs overflow_store) = ArithmeticOverflow"
    by code_simp+
  ultimately show ?thesis unfolding a by (simp add: overflow_store_def)
qed

section \<open>Endpoints in a store with unique identifiers\<close>

lemma length_filter_indices:
  "length (filter (\<lambda>i. P (xs ! i)) [0..<length xs]) = length (filter P xs)"
proof -
  have "filter P xs = filter P (map ((!) xs) [0..<length xs])" by (simp add: map_nth)
  also have "\<dots> = map ((!) xs) (filter (\<lambda>i. P (xs ! i)) [0..<length xs])"
    by (simp add: filter_map comp_def)
  finally show ?thesis by simp
qed

text \<open>
  With unique identifiers an endpoint that resolves is one node, and without parallel
  relationships a pair has at most one relationship of a type: the hypotheses of the
  theorem on the attributes of COVERED\_BY hold in every store the job can produce, for
  every record whose endpoints resolve.
\<close>

lemma resolved_endpoint_unique:
  assumes "unique_ids st" "match_endpoint fns r st (L, ''id'', e) \<noteq> []"
  shows "\<exists>v. match_endpoint fns r st (L, ''id'', e) = [v]"
proof -
  from assms(2) obtain x where ev: "eval_nexpr fns r e = Some x"
    by (auto simp: match_endpoint_def split: option.splits)
  then have m: "match_endpoint fns r st (L, ''id'', e) = match_nodes st L [(''id'', x)]"
    by (simp add: match_endpoint_def)
  from assms(1) have "distinct (ids_of st L)" by (simp add: unique_ids_def)
  from distinct_map_filter_count[OF this[unfolded ids_of_def constraint_property_def], of x]
  have a: "length (filter (\<lambda>n. (if nlabel n = L then nprops n ''id'' else None) = Some x) (nodes st)) \<le> 1" .
  have e: "(\<lambda>n. (if nlabel n = L then nprops n ''id'' else None) = Some x) =
           (\<lambda>n. node_matches n L [(''id'', x)])"
    by (auto simp: node_matches_def)
  from a[unfolded e] length_filter_indices[of "\<lambda>n. node_matches n L [(''id'', x)]" "nodes st"]
  have "length (match_nodes st L [(''id'', x)]) \<le> 1"
    by (simp add: match_nodes_def)
  with assms(2) m show ?thesis
    by (cases "match_nodes st L [(''id'', x)]") auto
qed

lemma attempt_keeps_invariants:
  fixes s :: "'f store"
  assumes "load_attempt fns src up s = (res, s', issued)" "unique_ids s" "no_parallel s"
  shows "unique_ids s' \<and> no_parallel s'"
  using load_attempt_unique[OF assms(1,2)] load_attempt_no_parallel[OF assms(1,3)] by simp

end
